theory Spec2Isabelle
  imports Main "HOL-Library.Sublist"
begin

section \<open>Strings\<close>

text \<open>
  JavaScript strings are modelled as \<^typ>\<open>string\<close>, one \<^typ>\<open>char\<close> per code unit, and
  are taken to lie in the range of that type (code units up to \<open>0xFF\<close>): case conversion,
  the whitespace class, the line terminators and the word characters below are those of
  JavaScript on this range. The regular expressions of the program are written out as
  the scans they perform.
\<close>

definition isWhiteSpace :: "char \<Rightarrow> bool" where
  \<comment> \<open>what \<open>String.prototype.trim\<close> and the regex class \<open>\s\<close> remove\<close>
  "isWhiteSpace c =
     (c \<in> set [CHR '' '', CHR 0x09, CHR 0x0A, CHR 0x0B, CHR 0x0C, CHR 0x0D, CHR 0xA0])"

definition isLineTerminator :: "char \<Rightarrow> bool" where
  \<comment> \<open>what the regex \<open>.\<close> does not match\<close>
  "isLineTerminator c = (c = CHR 0x0A \<or> c = CHR 0x0D)"

definition isWordChar :: "char \<Rightarrow> bool" where
  \<comment> \<open>the regex class \<open>\w\<close>: letters, digits, underscore\<close>
  "isWordChar c =
     (let n = (of_char c :: nat)
      in (48 \<le> n \<and> n \<le> 57) \<or> (65 \<le> n \<and> n \<le> 90) \<or> (97 \<le> n \<and> n \<le> 122) \<or> n = 95)"

definition toLowerChar :: "char \<Rightarrow> char" where
  \<comment> \<open>the letters \<open>A\<close> to \<open>Z\<close>, and the capital letters from \<open>0xC0\<close> to \<open>0xDE\<close> (all but the
      multiplication sign \<open>0xD7\<close>), which lie 32 below their small letters\<close>
  "toLowerChar c =
     (case map_of (zip ''ABCDEFGHIJKLMNOPQRSTUVWXYZ'' ''abcdefghijklmnopqrstuvwxyz'') c of
        Some l \<Rightarrow> l
      | None \<Rightarrow>
          (let n = (of_char c :: nat)
           in if 192 \<le> n \<and> n \<le> 222 \<and> n \<noteq> 215 then char_of (n + 32) else c))"

definition toLowerCase :: "string \<Rightarrow> string" where
  "toLowerCase s = map toLowerChar s"

definition trim :: "string \<Rightarrow> string" where
  "trim s = rev (dropWhile isWhiteSpace (rev (dropWhile isWhiteSpace s)))"

definition startsWith :: "string \<Rightarrow> string \<Rightarrow> bool" where
  "startsWith s p = (take (length p) s = p)"

definition endsWith :: "string \<Rightarrow> string \<Rightarrow> bool" where
  "endsWith s e = (length e \<le> length s \<and> drop (length s - length e) s = e)"

fun indexOf :: "string \<Rightarrow> string \<Rightarrow> nat option" where
  \<comment> \<open>the position of the first occurrence of \<open>p\<close> in the string\<close>
  "indexOf [] p = (if p = [] then Some 0 else None)"
| "indexOf (c # cs) p = (if startsWith (c # cs) p then Some 0 else map_option Suc (indexOf cs p))"

definition js_includes :: "string \<Rightarrow> string \<Rightarrow> bool" where
  "js_includes s p = (indexOf s p \<noteq> None)"

fun getSubstitution :: "string \<Rightarrow> string \<Rightarrow> string \<Rightarrow> string \<Rightarrow> string" where
  \<comment> \<open>the replacement text of \<open>String.prototype.replace\<close> for a string pattern: \<open>$$\<close>, \<open>$&\<close>,
      \<open>$`\<close> and \<open>$'\<close> are expanded; there are no capture groups, so \<open>$1\<close> stays as it is\<close>
  "getSubstitution matched pre post [] = []"
| "getSubstitution matched pre post [c] = [c]"
| "getSubstitution matched pre post (c # d # r) =
     (if c = CHR ''$'' \<and> d = CHR ''$'' then CHR ''$'' # getSubstitution matched pre post r
      else if c = CHR ''$'' \<and> d = CHR ''&'' then matched @ getSubstitution matched pre post r
      else if c = CHR ''$'' \<and> d = CHR 0x60 then pre @ getSubstitution matched pre post r
      else if c = CHR ''$'' \<and> d = CHR 0x27 then post @ getSubstitution matched pre post r
      else c # getSubstitution matched pre post (d # r))"

definition js_replace :: "string \<Rightarrow> string \<Rightarrow> string \<Rightarrow> string" where
  \<comment> \<open>\<open>s.replace(p, r)\<close> with a string pattern: the first occurrence only\<close>
  "js_replace s p r =
     (case indexOf s p of
        None \<Rightarrow> s
      | Some i \<Rightarrow>
          take i s @ getSubstitution p (take i s) (drop (i + length p) s) r @ drop (i + length p) s)"

fun tagLength :: "string \<Rightarrow> nat option" where
  \<comment> \<open>after a \<open><\<close>: how many characters \<open>.*?>\<close> takes, if it matches\<close>
  "tagLength [] = None"
| "tagLength (c # cs) =
     (if c = CHR ''>'' then Some 1
      else if isLineTerminator c then None
      else map_option Suc (tagLength cs))"

fun stripTagsFrom :: "nat \<Rightarrow> string \<Rightarrow> string" where
  \<comment> \<open>\<open>s.replace(/<.*?>/g, '')\<close>; the counter is the number of characters of a match still to drop\<close>
  "stripTagsFrom n [] = []"
| "stripTagsFrom (Suc n) (c # cs) = stripTagsFrom n cs"
| "stripTagsFrom 0 (c # cs) =
     (if c = CHR ''<'' then
        (case tagLength cs of
           Some n \<Rightarrow> stripTagsFrom n cs
         | None \<Rightarrow> c # stripTagsFrom 0 cs)
      else c # stripTagsFrom 0 cs)"

definition stripTags :: "string \<Rightarrow> string" where
  "stripTags s = stripTagsFrom 0 s"

fun underscoreRuns :: "bool \<Rightarrow> string \<Rightarrow> string" where
  \<comment> \<open>\<open>s.replace(/\s+/g, '_')\<close>; the flag says that the whitespace run is already replaced\<close>
  "underscoreRuns inRun [] = []"
| "underscoreRuns inRun (c # cs) =
     (if isWhiteSpace c then (if inRun then underscoreRuns True cs else CHR ''_'' # underscoreRuns True cs)
      else c # underscoreRuns False cs)"

fun stripExtension :: "string \<Rightarrow> string" where
  \<comment> \<open>\<open>s.replace(/\.\w+$/, '')\<close>\<close>
  "stripExtension [] = []"
| "stripExtension (c # cs) =
     (if c = CHR ''.'' \<and> cs \<noteq> [] \<and> list_all isWordChar cs then [] else c # stripExtension cs)"

fun split_on :: "char \<Rightarrow> string \<Rightarrow> string list" where
  \<comment> \<open>\<open>s.split(d)\<close> for a one-character separator; the empty string gives one empty piece\<close>
  "split_on d [] = [[]]"
| "split_on d (c # cs) =
     (if c = d then [] # split_on d cs
      else (case split_on d cs of p # ps \<Rightarrow> (c # p) # ps | [] \<Rightarrow> [[c]]))"

section \<open>Model calls (GeminiAPI)\<close>

text \<open>
  One HTTP exchange with the model, as the caller sees it: \<open>fetch\<close> rejects, or
  the status is not a success, or the status is a success and reading
  \<open>data.candidates[0].content.parts[0].text\<close> out of the body either throws
  (\<open>None\<close>) or gives the text (a part that is reached is taken to hold a string).
  Each function below returns, next to its result, the requests it sent.
\<close>

datatype response = NetworkError | HttpError nat | HttpOk "string option"

datatype request = RelayRequest | DirectRequest

datatype error =
    ApiKeyRequiredProxyUnavailable  \<comment> \<open>'API key is required when proxy is unavailable'\<close>
  | ApiKeyRequiredNoProxy           \<comment> \<open>'API key is required when not using the proxy'\<close>
  | GeminiApiError nat              \<comment> \<open>'Gemini API error: status text'\<close>
  | FetchFailed                     \<comment> \<open>the error \<open>fetch\<close> rejected with\<close>
  | MalformedBody                   \<comment> \<open>the error reading the reply out of the body threw\<close>
  | NoImagesFound                   \<comment> \<open>'No images found on Wikimedia for the given search terms'\<close>

definition falsy :: "string option \<Rightarrow> bool" where
  \<comment> \<open>\<open>!apiKey\<close>: undefined, null or the empty string\<close>
  "falsy k = (case k of None \<Rightarrow> True | Some s \<Rightarrow> s = [])"

definition parseSearchTerms :: "string \<Rightarrow> string list" where
  \<comment> \<open>\<open>text.trim().split(',').map(term => term.trim())\<close>\<close>
  "parseSearchTerms text = map trim (split_on CHR '','' (trim text))"

definition relayPath :: "response \<Rightarrow> string option" where
  \<comment> \<open>the \<open>try\<close> block around the relay call: the reply text, or \<open>None\<close> when it threw (and was caught)\<close>
  "relayPath relay =
     (case relay of
        NetworkError \<Rightarrow> None
      | HttpError st \<Rightarrow> None
      | HttpOk None \<Rightarrow> None
      | HttpOk (Some text) \<Rightarrow> Some text)"

definition directPath :: "string option \<Rightarrow> response \<Rightarrow> request list \<times> (error + string)" where
  \<comment> \<open>the direct call with the user's key: the requests sent, and the reply text or the error thrown\<close>
  "directPath apiKey direct =
     (if falsy apiKey then ([], Inl ApiKeyRequiredProxyUnavailable)
      else (case direct of
              NetworkError \<Rightarrow> ([DirectRequest], Inl FetchFailed)
            | HttpError st \<Rightarrow> ([DirectRequest], Inl (GeminiApiError st))
            | HttpOk None \<Rightarrow> ([DirectRequest], Inl MalformedBody)
            | HttpOk (Some text) \<Rightarrow> ([DirectRequest], Inr text)))"

definition getSearchTerms ::
  "bool \<Rightarrow> string option \<Rightarrow> response \<Rightarrow> response \<Rightarrow> request list \<times> (error + string list)" where
  "getSearchTerms usingProxy apiKey relay direct =
     (if usingProxy then
        (case relayPath relay of
           Some text \<Rightarrow> ([RelayRequest], Inr (parseSearchTerms text))
         | None \<Rightarrow>
             (case directPath apiKey direct of
                (sent, Inl e) \<Rightarrow> (RelayRequest # sent, Inl e)
              | (sent, Inr text) \<Rightarrow> (RelayRequest # sent, Inr (parseSearchTerms text))))
      else
        (case directPath apiKey direct of
           (sent, Inl e) \<Rightarrow> (sent, Inl e)
         | (sent, Inr text) \<Rightarrow> (sent, Inr (parseSearchTerms text))))"

definition analyzeImages ::
  "bool \<Rightarrow> string option \<Rightarrow> response \<Rightarrow> response \<Rightarrow> request list \<times> (error + string)" where
  "analyzeImages usingProxy apiKey relay direct =
     (if usingProxy then
        (case relayPath relay of
           Some text \<Rightarrow> ([RelayRequest], Inr text)
         | None \<Rightarrow> (case directPath apiKey direct of (sent, r) \<Rightarrow> (RelayRequest # sent, r)))
      else directPath apiKey direct)"

section \<open>Image details (WikimediaAPI.getImageDetails)\<close>

record ImageDetail =
  url :: string
  altText :: string
  title :: string
  license :: string
  attribution :: string

text \<open>
  The \<open>extmetadata\<close> bag of the reply: for each field its \<open>value\<close>, \<open>None\<close> when the
  field is absent.
\<close>

record metadata =
  ImageDescription :: "string option"
  ObjectName :: "string option"
  Categories :: "string option"
  LicenseShortName :: "string option"
  License :: "string option"
  Artist :: "string option"

datatype details_response =
    DetailsFailed                  \<comment> \<open>the request failed, the page is missing or the reply is malformed\<close>
  | DetailsFound string metadata   \<comment> \<open>\<open>imageInfo.url\<close> and \<open>imageInfo.extmetadata\<close>\<close>

definition deriveAltText :: "metadata \<Rightarrow> string \<Rightarrow> string" where
  \<comment> \<open>the \<open>if\<close> chain that picks the description\<close>
  "deriveAltText md imageTitle =
     (if \<not> falsy (ImageDescription md) then stripTags (the (ImageDescription md))
      else if \<not> falsy (ObjectName md) then the (ObjectName md)
      else if \<not> falsy (Categories md) then stripTags (the (Categories md))
      else js_replace imageTitle ''File:'' [])"

definition limitAltText :: "string \<Rightarrow> string" where
  \<comment> \<open>\<open>altText = altText.trim().substring(0, 200); if (altText.length === 200) altText += '...'\<close>\<close>
  "limitAltText altText0 =
     (let altText = take 200 (trim altText0)
      in if length altText = 200 then altText @ ''...'' else altText)"

definition getImageDetails :: "details_response \<Rightarrow> string \<Rightarrow> ImageDetail option" where
  "getImageDetails reply imageTitle =
     (case reply of
        DetailsFailed \<Rightarrow> None
      | DetailsFound imageUrl md \<Rightarrow>
          Some \<lparr> url = imageUrl,
                 altText = limitAltText (deriveAltText md imageTitle),
                 title = js_replace imageTitle ''File:'' [],
                 license =
                   (if \<not> falsy (LicenseShortName md) then stripTags (the (LicenseShortName md))
                    else if \<not> falsy (License md) then stripTags (the (License md))
                    else ''Unknown license''),
                 attribution = (if \<not> falsy (Artist md) then stripTags (the (Artist md)) else []) \<rparr>)"

section \<open>Admission (processImages)\<close>

record ProcessedImage = ImageDetail +
  base64 :: string

text \<open>
  The constants of the admission pass. The two versions of the pipeline differ in them
  only. The per-image ceiling is kept in bytes: \<open>sizeInBytes / (1024 * 1024) <= 1.0\<close>
  holds exactly when \<open>sizeInBytes <= 1048576\<close>, and likewise for \<open>0.5\<close>.
\<close>

record config =
  MAX_PAYLOAD_SIZE :: nat
  MAX_IMAGES :: nat
  SIZE_LIMIT :: nat

definition app_config :: config where
  "app_config = \<lparr> MAX_PAYLOAD_SIZE = 17 * 1024 * 1024, MAX_IMAGES = 15, SIZE_LIMIT = 1024 * 1024 \<rparr>"

definition script_config :: config where
  \<comment> \<open>the older single-script version\<close>
  "script_config = \<lparr> MAX_PAYLOAD_SIZE = 15 * 1024 * 1024, MAX_IMAGES = 8, SIZE_LIMIT = 512 * 1024 \<rparr>"

datatype head_response =
    HeadFailed                \<comment> \<open>\<open>fetch\<close> rejected, or the status is not a success\<close>
  | HeadNoLength              \<comment> \<open>no \<open>content-length\<close> header (or an empty one)\<close>
  | HeadLength "int option"   \<comment> \<open>\<open>parseInt(contentLength, 10)\<close>; \<open>None\<close> is \<open>NaN\<close>\<close>

text \<open>
  What the network answers for a URL, taken as a function of the URL: the \<open>HEAD\<close> request
  of \<open>checkImageSize\<close>, and the data URLs that \<open>getImageBase64\<close> and \<open>svgToPng\<close> resolve to
  (\<open>None\<close> when they reject).
\<close>

record network =
  headRequest :: "string \<Rightarrow> head_response"
  getImageBase64 :: "string \<Rightarrow> string option"
  svgToPng :: "string \<Rightarrow> string option"

definition checkImageSize :: "nat \<Rightarrow> head_response \<Rightarrow> bool" where
  "checkImageSize limit r =
     (case r of
        HeadFailed \<Rightarrow> False
      | HeadNoLength \<Rightarrow> True
      | HeadLength None \<Rightarrow> False
      | HeadLength (Some sizeInBytes) \<Rightarrow> sizeInBytes \<le> int limit)"

definition estimateBase64Size :: "string \<Rightarrow> nat" where
  \<comment> \<open>\<open>Math.ceil((base64Data.length * 3) / 4)\<close>, with \<open>base64Data = base64String.split(',')[1] || base64String\<close>\<close>
  "estimateBase64Size base64String =
     (let parts = split_on CHR '','' base64String;
          base64Data = (if 1 < length parts \<and> parts ! 1 \<noteq> [] then parts ! 1 else base64String)
      in (length base64Data * 3 + 3) div 4)"

definition prepareImage :: "config \<Rightarrow> network \<Rightarrow> ImageDetail \<Rightarrow> (string \<times> string) option" where
  \<comment> \<open>the loop body up to the budget check: the payload and the new title, or \<open>None\<close> when the
      image is skipped (\<open>continue\<close>) or an error is caught\<close>
  "prepareImage cfg net img =
     (if endsWith (toLowerCase (url img)) ''.gif'' then None
      else if \<not> checkImageSize (SIZE_LIMIT cfg) (headRequest net (url img)) then None
      else
        (let fileName = toLowerCase (underscoreRuns False (title img))
         in if endsWith (url img) ''.svg''
            then map_option (\<lambda>b. (b, js_replace fileName ''.svg'' ''.png'')) (svgToPng net (url img))
            else map_option (\<lambda>b. (b, fileName)) (getImageBase64 net (url img))))"

record admission =
  processedImages :: "ProcessedImage list"
  totalPayloadSize :: nat

definition attach :: "ImageDetail \<Rightarrow> string \<Rightarrow> string \<Rightarrow> ProcessedImage" where
  \<comment> \<open>the image object after \<open>img.title = newTitle\<close> and \<open>img.base64 = b\<close>\<close>
  "attach img newTitle b =
     \<lparr> url = url img, altText = altText img, title = newTitle,
       license = license img, attribution = attribution img, base64 = b \<rparr>"

definition origin :: "'a ImageDetail_scheme \<Rightarrow> string \<times> string \<times> string \<times> string" where
  \<comment> \<open>the fields the admission pass never writes\<close>
  "origin img = (url img, altText img, license img, attribution img)"

definition processImage :: "config \<Rightarrow> network \<Rightarrow> admission \<Rightarrow> ImageDetail \<Rightarrow> admission" where
  \<comment> \<open>one iteration of the \<open>for\<close> loop\<close>
  "processImage cfg net st img =
     (case prepareImage cfg net img of
        None \<Rightarrow> st
      | Some (b, newTitle) \<Rightarrow>
          (let imageSize = estimateBase64Size b
           in if totalPayloadSize st + imageSize > MAX_PAYLOAD_SIZE cfg then st
              else \<lparr> processedImages = processedImages st @ [attach img newTitle b],
                      totalPayloadSize = totalPayloadSize st + imageSize \<rparr>))"

definition admissionLoop :: "config \<Rightarrow> network \<Rightarrow> ImageDetail list \<Rightarrow> admission" where
  "admissionLoop cfg net imageDetails =
     foldl (processImage cfg net) \<lparr> processedImages = [], totalPayloadSize = 0 \<rparr> imageDetails"

definition processImages :: "config \<Rightarrow> network \<Rightarrow> ImageDetail list \<Rightarrow> ProcessedImage list" where
  "processImages cfg net imageDetails =
     (let admitted = processedImages (admissionLoop cfg net imageDetails)
      in if length admitted > MAX_IMAGES cfg then take (MAX_IMAGES cfg) admitted else admitted)"

definition within_budget :: "config \<Rightarrow> admission \<Rightarrow> bool" where
  \<comment> \<open>the invariant of the loop: the accumulator is within the budget and is the sum of the
      estimates of the admitted images\<close>
  "within_budget cfg st =
     (totalPayloadSize st \<le> MAX_PAYLOAD_SIZE cfg \<and>
      totalPayloadSize st = (\<Sum>p\<leftarrow>processedImages st. estimateBase64Size (base64 p)))"

section \<open>Placeholders (formatResponse)\<close>

fun matchBody :: "string \<Rightarrow> string option" where
  \<comment> \<open>after \<open>[[[\<close>: what the lazy group \<open>(.*?)\<close> captures up to the first \<open>]]]\<close>; no match when a
      line terminator or the end of the text comes first\<close>
  "matchBody [] = None"
| "matchBody (c # cs) =
     (if startsWith (c # cs) '']]]'' then Some []
      else if isLineTerminator c then None
      else map_option ((#) c) (matchBody cs))"

fun execAll :: "nat \<Rightarrow> string \<Rightarrow> (string \<times> string) list" where
  \<comment> \<open>the \<open>while\<close> loop over \<open>pattern.exec\<close> with \<open>/\[\[\[(.*?)\]\]\]/g\<close>: the pairs
      (\<open>match[0]\<close>, \<open>match[1]\<close>) from left to right; the counter is the number of characters
      up to \<open>lastIndex\<close>\<close>
  "execAll n [] = []"
| "execAll (Suc n) (c # cs) = execAll n cs"
| "execAll 0 (c # cs) =
     (if startsWith (c # cs) ''[[['' then
        (case matchBody (drop 3 (c # cs)) of
           Some filename \<Rightarrow> (''[[['' @ filename @ '']]]'', filename) # execAll (length filename + 5) cs
         | None \<Rightarrow> execAll 0 cs)
      else execAll 0 cs)"

definition tokenText :: "string \<Rightarrow> bool" where
  \<comment> \<open>the shape of a text the pattern matches: the opening brackets, a file name, and the
      closing brackets, which come first at the very end (the group is lazy)\<close>
  "tokenText x =
     (\<exists>filename. x = ''[[['' @ filename @ '']]]'' \<and>
        (\<forall>u v. filename @ '']]]'' = u @ '']]]'' @ v \<longrightarrow> v = []))"

fun occurs :: "string \<Rightarrow> nat \<Rightarrow> string \<Rightarrow> bool" where
  \<comment> \<open>for the proofs about the substitution loop: the text holds \<open>k\<close> occurrences of
      \<open>t\<close>, one after the other\<close>
  "occurs t 0 s = True"
| "occurs t (Suc k) s = (\<exists>a b. s = a @ t @ b \<and> occurs t k b)"

fun setProperty :: "(string \<times> string) list \<Rightarrow> string \<Rightarrow> string \<Rightarrow> (string \<times> string) list" where
  \<comment> \<open>\<open>obj[k] = v\<close> on an object whose entries are kept in insertion order\<close>
  "setProperty [] k v = [(k, v)]"
| "setProperty ((k', v') # kvs) k v =
     (if k' = k then (k, v) # kvs else (k', v') # setProperty kvs k v)"

definition extractPlaceholders :: "string \<Rightarrow> (string \<times> string) list" where
  \<comment> \<open>\<open>Object.entries(imagePlaceholders)\<close> after the extraction loop; no key is an array index
      (each starts with a bracket), so the entries come in insertion order\<close>
  "extractPlaceholders geminiResponse =
     foldl (\<lambda>imagePlaceholders (placeholder, filename). setProperty imagePlaceholders placeholder filename)
       [] (execAll 0 geminiResponse)"

definition titleMatches :: "string \<Rightarrow> string \<Rightarrow> bool" where
  \<comment> \<open>the predicate given to \<open>processedImages.find\<close>\<close>
  "titleMatches imageTitle normalizedFilename =
     (let imgTitle = toLowerCase imageTitle
      in imgTitle = normalizedFilename \<or>
         js_includes imgTitle normalizedFilename \<or>
         js_includes normalizedFilename imgTitle \<or>
         stripExtension imgTitle = stripExtension normalizedFilename)"

definition findImage :: "ProcessedImage list \<Rightarrow> string \<Rightarrow> ProcessedImage option" where
  "findImage images filename =
     (let normalizedFilename = trim (toLowerCase filename)
      in List.find (\<lambda>img. titleMatches (title img) normalizedFilename) images)"

definition substitute ::
  "(ProcessedImage \<Rightarrow> string) \<Rightarrow> ProcessedImage list \<Rightarrow> string \<Rightarrow> string \<times> string \<Rightarrow> string" where
  \<comment> \<open>the body of the \<open>forEach\<close>: one entry of the mapping applied to \<open>formattedResponse\<close>;
      \<open>imgTag\<close> renders the figure markup of an image (it goes through the browser's DOM)\<close>
  "substitute imgTag images formattedResponse entry =
     (case entry of (placeholder, filename) \<Rightarrow>
        (case findImage images filename of
           Some img \<Rightarrow> js_replace formattedResponse placeholder (imgTag img)
         | None \<Rightarrow> formattedResponse))"

definition resolvePlaceholders ::
  "(ProcessedImage \<Rightarrow> string) \<Rightarrow> ProcessedImage list \<Rightarrow> string \<Rightarrow> string" where
  \<comment> \<open>\<open>formatResponse\<close> up to the call of the markup renderer\<close>
  "resolvePlaceholders imgTag images geminiResponse =
     foldl (substitute imgTag images) geminiResponse (extractPlaceholders geminiResponse)"

definition formatResponse ::
  "(string \<Rightarrow> string) \<Rightarrow> (ProcessedImage \<Rightarrow> string) \<Rightarrow> ProcessedImage list \<Rightarrow> string \<Rightarrow> string" where
  \<comment> \<open>\<open>marked\<close> is \<open>marked.parse\<close>, the external renderer\<close>
  "formatResponse marked imgTag images geminiResponse =
     marked (resolvePlaceholders imgTag images geminiResponse)"

section \<open>The run (processQuestion)\<close>

text \<open>
  Everything outside the program that a run depends on: the relay switch, the replies of
  the model and of the media repository to each request, and the two renderers.
\<close>

record environment =
  useProxy :: bool
  termsRelay :: "string \<Rightarrow> response"
  termsDirect :: "string \<Rightarrow> response"
  searchReply :: "string \<Rightarrow> (string \<times> nat) list option"
  detailsReply :: "string \<Rightarrow> details_response"
  imageNetwork :: network
  visionRelay :: "string \<Rightarrow> ProcessedImage list \<Rightarrow> string \<Rightarrow> response"
  visionDirect :: "string \<Rightarrow> ProcessedImage list \<Rightarrow> string \<Rightarrow> response"
  renderTag :: "ProcessedImage \<Rightarrow> string"
  renderMarkup :: "string \<Rightarrow> string"

definition searchImages :: "(string \<times> nat) list option \<Rightarrow> (string \<times> nat) list" where
  \<comment> \<open>the (title, pageId) pairs of the reply, or the empty list when the request failed\<close>
  "searchImages reply = (case reply of None \<Rightarrow> [] | Some results \<Rightarrow> results)"

definition searchAll :: "environment \<Rightarrow> string list \<Rightarrow> (string \<times> nat) list" where
  \<comment> \<open>\<open>searchResults.flat()\<close>, cut to 15\<close>
  "searchAll env searchTerms =
     (let allImageResults = concat (map (\<lambda>term. searchImages (searchReply env term)) searchTerms)
      in if length allImageResults > 15 then take 15 allImageResults else allImageResults)"

definition fetchDetails :: "environment \<Rightarrow> (string \<times> nat) list \<Rightarrow> ImageDetail list" where
  \<comment> \<open>\<open>(await Promise.all(imageDetailsPromises)).filter(Boolean)\<close>\<close>
  "fetchDetails env allImageResults =
     List.map_filter (\<lambda>img. getImageDetails (detailsReply env (fst img)) (fst img)) allImageResults"

datatype outcome = ShowError error | DisplayResponse string

definition processQuestion ::
  "config \<Rightarrow> environment \<Rightarrow> string \<Rightarrow> string option \<Rightarrow> string \<Rightarrow> request list \<times> outcome" where
  \<comment> \<open>what the run shows, and the requests it sent to the vision model\<close>
  "processQuestion cfg env question apiKey modelName =
     (if \<not> useProxy env \<and> falsy apiKey then ([], ShowError ApiKeyRequiredNoProxy)
      else
        (case getSearchTerms (useProxy env) apiKey (termsRelay env question) (termsDirect env question) of
           (sent, Inl e) \<Rightarrow> ([], ShowError e)
         | (sent, Inr searchTerms) \<Rightarrow>
             (let allImageResults = searchAll env searchTerms
              in if length allImageResults = 0 then ([], ShowError NoImagesFound)
                 else
                   (let images = processImages cfg (imageNetwork env) (fetchDetails env allImageResults)
                    in (case analyzeImages (useProxy env) apiKey
                               (visionRelay env question images modelName)
                               (visionDirect env question images modelName) of
                          (sent', Inl e) \<Rightarrow> (sent', ShowError e)
                        | (sent', Inr geminiResponse) \<Rightarrow>
                            (sent', DisplayResponse
                               (formatResponse (renderMarkup env) (renderTag env) images geminiResponse)))))))"

section \<open>Example inputs\<close>

definition small_config :: config where
  "small_config = \<lparr> MAX_PAYLOAD_SIZE = 10, MAX_IMAGES = 15, SIZE_LIMIT = 100 \<rparr>"

definition image_at :: "string \<Rightarrow> ImageDetail" where
  "image_at u = \<lparr> url = u, altText = ''a picture'', title = ''Some Picture.png'',
                  license = ''CC0'', attribution = [] \<rparr>"

definition small_net :: network where
  \<comment> \<open>every probe succeeds without a size; \<open>b\<close> has a short payload, all others a longer one\<close>
  "small_net =
     \<lparr> headRequest = (\<lambda>u. HeadNoLength),
       getImageBase64 = (\<lambda>u. if u = ''b'' then Some ''data:,AAAA'' else Some ''data:,AAAAAAAA''),
       svgToPng = (\<lambda>u. None) \<rparr>"

definition large_payload :: string where
  \<comment> \<open>a data URL with 1400000 characters of payload\<close>
  "large_payload = ''data:image/jpeg;base64,'' @ replicate 1400000 CHR ''A''"

definition unsized_net :: network where
  \<comment> \<open>no probe reports a size; every download gives the large payload\<close>
  "unsized_net =
     \<lparr> headRequest = (\<lambda>u. HeadNoLength),
       getImageBase64 = (\<lambda>u. Some large_payload),
       svgToPng = (\<lambda>u. None) \<rparr>"

definition plain_tag :: "ProcessedImage \<Rightarrow> string" where
  "plain_tag img = ''<figure>''"

definition picture_a :: ProcessedImage where
  "picture_a = attach (image_at ''https://upload.wikimedia.org/a.png'') ''a.png'' ''data:,AAAA''"

definition picture_b :: ProcessedImage where
  "picture_b = attach (image_at ''https://upload.wikimedia.org/b.png'') ''b.png'' ''data:,AAAA''"

definition no_metadata :: metadata where
  "no_metadata = \<lparr> ImageDescription = None, ObjectName = None, Categories = None,
                     LicenseShortName = None, License = None, Artist = None \<rparr>"

definition gif_env :: environment where
  \<comment> \<open>the relay is on and answers; every search finds the one file \<open>Cat.gif\<close>; the vision
      model answers only a request that carries no image\<close>
  "gif_env =
     \<lparr> useProxy = True,
       termsRelay = (\<lambda>question. HttpOk (Some ''cat'')),
       termsDirect = (\<lambda>question. NetworkError),
       searchReply = (\<lambda>term. Some [(''File:Cat.gif'', 42)]),
       detailsReply = (\<lambda>imageTitle. DetailsFound ''https://upload.wikimedia.org/Cat.gif'' no_metadata),
       imageNetwork = small_net,
       visionRelay = (\<lambda>question images modelName.
                        if images = [] then HttpOk (Some ''Cats are mammals.'') else NetworkError),
       visionDirect = (\<lambda>question images modelName. NetworkError),
       renderTag = plain_tag,
       renderMarkup = (\<lambda>markdown. markdown) \<rparr>"

definition silent_env :: environment where
  \<comment> \<open>as \<open>gif_env\<close>, but every search request fails\<close>
  "silent_env = gif_env \<lparr> searchReply := (\<lambda>term. None) \<rparr>"

section \<open>Search terms\<close>

lemma split_on_nonempty: "split_on d s \<noteq> []"
  by (induction s) (auto split: list.splits)

lemma split_on_no_sep: "p \<in> set (split_on d s) \<Longrightarrow> d \<notin> set p"
  by (induction s arbitrary: p) (auto split: if_splits list.splits)

lemma comma_not_space: "isWhiteSpace c \<Longrightarrow> c \<noteq> CHR '',''"
  by (auto simp: isWhiteSpace_def)

lemma trim_Cons_space: "isWhiteSpace c \<Longrightarrow> trim (c # p) = trim p"
  by (simp add: trim_def)

lemma trim_snoc_space: "isWhiteSpace c \<Longrightarrow> trim (p @ [c]) = trim p"
proof (cases "\<forall>x\<in>set p. isWhiteSpace x")
  case True
  assume "isWhiteSpace c"
  with True have e: "dropWhile isWhiteSpace (p @ [c]) = []" "dropWhile isWhiteSpace p = []"
    by (auto simp: dropWhile_eq_Nil_conv)
  show ?thesis unfolding trim_def e by simp
next
  case False
  assume c: "isWhiteSpace c"
  from False obtain x where "x \<in> set p" "\<not> isWhiteSpace x"
    by blast
  then have e: "dropWhile isWhiteSpace (p @ [c]) = dropWhile isWhiteSpace p @ [c]"
    by (rule dropWhile_append1)
  show ?thesis unfolding trim_def e using c by simp
qed

lemma trim_idem: "trim (trim s) = trim s"
proof (cases "dropWhile isWhiteSpace s")
  case Nil
  show ?thesis unfolding trim_def Nil by simp
next
  case (Cons a xs)
  then have a: "\<not> isWhiteSpace a"
    using hd_dropWhile [of isWhiteSpace s] by auto
  have t: "trim s = a # rev (dropWhile isWhiteSpace (rev xs))"
    using Cons a by (simp add: trim_def dropWhile_append3)
  show ?thesis
    unfolding t using a by (simp add: trim_def dropWhile_append3)
qed

lemma trim_subset: "c \<in> set (trim s) \<Longrightarrow> c \<in> set s"
proof -
  assume "c \<in> set (trim s)"
  then have "c \<in> set (dropWhile isWhiteSpace (rev (dropWhile isWhiteSpace s)))"
    by (simp add: trim_def)
  then have "c \<in> set (rev (dropWhile isWhiteSpace s))"
    by (rule set_dropWhileD)
  then show ?thesis
    by (auto dest: set_dropWhileD)
qed

lemma split_on_leading:
  "map trim (split_on CHR '','' (dropWhile isWhiteSpace s)) = map trim (split_on CHR '','' s)"
proof (induction s)
  case Nil
  then show ?case by simp
next
  case (Cons c cs)
  show ?case
  proof (cases "isWhiteSpace c")
    case True
    then show ?thesis
      using Cons comma_not_space [OF True] split_on_nonempty [of "CHR '',''" cs]
      by (auto simp: trim_Cons_space split: list.splits)
  next
    case False
    then show ?thesis by simp
  qed
qed

lemma split_on_snoc:
  "c \<noteq> d \<Longrightarrow> split_on d (s @ [c]) = butlast (split_on d s) @ [last (split_on d s) @ [c]]"
  by (induction s) (auto simp: split_on_nonempty split: list.splits)

lemma split_on_trailing:
  "\<forall>c\<in>set w. isWhiteSpace c \<Longrightarrow>
     map trim (split_on CHR '','' (y @ w)) = map trim (split_on CHR '','' y)"
proof (induction w rule: rev_induct)
  case Nil
  then show ?case by simp
next
  case (snoc c w)
  have c: "isWhiteSpace c" "c \<noteq> CHR '',''"
    using snoc.prems comma_not_space by auto
  let ?ps = "split_on CHR '','' (y @ w)"
  have "split_on CHR '','' ((y @ w) @ [c]) = butlast ?ps @ [last ?ps @ [c]]"
    using c by (intro split_on_snoc)
  then have "map trim (split_on CHR '','' ((y @ w) @ [c])) = map trim (butlast ?ps) @ [trim (last ?ps)]"
    using c by (simp add: trim_snoc_space)
  also have "\<dots> = map trim (butlast ?ps @ [last ?ps])"
    by simp
  also have "\<dots> = map trim ?ps"
    by (simp add: split_on_nonempty)
  finally show ?case
    using snoc by simp
qed

lemma parseSearchTerms_split: "parseSearchTerms text = map trim (split_on CHR '','' text)"
proof -
  let ?x = "dropWhile isWhiteSpace text"
  let ?y = "rev (dropWhile isWhiteSpace (rev ?x))"
  let ?w = "rev (takeWhile isWhiteSpace (rev ?x))"
  have "rev ?x = rev ?w @ rev ?y"
    by simp
  then have x: "?x = ?y @ ?w"
    by (simp only: rev_swap rev_append rev_rev_ident)
  have "\<forall>c\<in>set ?w. isWhiteSpace c"
    by (auto dest: set_takeWhileD)
  then have "map trim (split_on CHR '','' (?y @ ?w)) = map trim (split_on CHR '','' ?y)"
    by (rule split_on_trailing)
  with x have "map trim (split_on CHR '','' (trim text)) = map trim (split_on CHR '','' ?x)"
    by (simp add: trim_def)
  then show ?thesis
    by (simp add: parseSearchTerms_def split_on_leading)
qed

lemma parseSearchTerms_nonempty: "parseSearchTerms text \<noteq> []"
  by (simp add: parseSearchTerms_def split_on_nonempty)

lemma parseSearchTerms_trimmed: "t \<in> set (parseSearchTerms text) \<Longrightarrow> trim t = t \<and> CHR '','' \<notin> set t"
  by (auto simp: parseSearchTerms_def trim_idem dest: trim_subset split_on_no_sep)

lemma getSearchTerms_reply:
  "getSearchTerms usingProxy apiKey relay direct = (sent, Inr terms) \<Longrightarrow>
     \<exists>text. (relay = HttpOk (Some text) \<or> direct = HttpOk (Some text)) \<and> terms = parseSearchTerms text"
  by (auto simp: getSearchTerms_def relayPath_def directPath_def
           split: if_splits option.splits response.splits sum.splits prod.splits)

text \<open>
  C9 (as the code has it). Whenever \<open>getSearchTerms\<close> returns, its terms are the
  reply of the relay or of the direct call, split on commas with each piece trimmed;
  there is at least one term, every term is trimmed and holds no comma. A term may be
  empty: nothing filters empty pieces out.
\<close>

theorem getSearchTerms_terms:
  "getSearchTerms usingProxy apiKey relay direct = (sent, Inr terms) \<Longrightarrow>
     (\<exists>text. (relay = HttpOk (Some text) \<or> direct = HttpOk (Some text)) \<and>
             terms = map trim (split_on CHR '','' text)) \<and>
     1 \<le> length terms \<and>
     list_all (\<lambda>t. trim t = t \<and> CHR '','' \<notin> set t) terms"
proof -
  assume r: "getSearchTerms usingProxy apiKey relay direct = (sent, Inr terms)"
  from getSearchTerms_reply [OF r] obtain reply
    where t: "relay = HttpOk (Some reply) \<or> direct = HttpOk (Some reply)" "terms = parseSearchTerms reply"
    by blast
  have "terms \<noteq> []"
    using t parseSearchTerms_nonempty by simp
  then have "1 \<le> length terms"
    by (cases terms) auto
  moreover have "list_all (\<lambda>t. trim t = t \<and> CHR '','' \<notin> set t) terms"
    using t parseSearchTerms_trimmed by (auto simp: list_all_iff)
  ultimately show ?thesis
    using t parseSearchTerms_split by auto
qed

theorem getSearchTerms_terms_witness:
  "getSearchTerms True None (HttpOk (Some ''perceptron diagram, neural network node'')) NetworkError
     = ([RelayRequest], Inr [''perceptron diagram'', ''neural network node'']) \<and>
   1 \<le> length [''perceptron diagram'', ''neural network node''] \<and>
   list_all (\<lambda>t. trim t = t \<and> CHR '','' \<notin> set t) [''perceptron diagram'', ''neural network node'']"
proof -
  have r: "getSearchTerms True None (HttpOk (Some ''perceptron diagram, neural network node'')) NetworkError
     = ([RelayRequest], Inr [''perceptron diagram'', ''neural network node''])"
    by (simp add: getSearchTerms_def relayPath_def parseSearchTerms_def trim_def isWhiteSpace_def)
  show ?thesis
    using getSearchTerms_terms [OF r] r by simp
qed

text \<open>
  The reply \<open>a,,b\<close> gives three terms, the second of them empty.
\<close>

theorem getSearchTerms_empty_term:
  "getSearchTerms True None (HttpOk (Some ''a,,b'')) NetworkError = ([RelayRequest], Inr [''a'', [], ''b''])
   \<and> [] \<in> set [''a'', [], ''b'']"
  by (simp add: getSearchTerms_def relayPath_def parseSearchTerms_def trim_def isWhiteSpace_def)

section \<open>Alternative text\<close>

lemma stripTags_plain: "CHR ''<'' \<notin> set s \<Longrightarrow> stripTags s = s"
  unfolding stripTags_def by (induction s) auto

lemma trim_plain:
  assumes "list_all (\<lambda>c. \<not> isWhiteSpace c) s"
  shows "trim s = s"
proof -
  have "dropWhile isWhiteSpace s = s"
    using assms by (cases s) auto
  moreover have "dropWhile isWhiteSpace (rev s) = rev s"
    using assms by (cases s rule: rev_cases) auto
  ultimately show ?thesis
    by (simp add: trim_def)
qed

lemma limitAltText_short: "length (trim s) < 200 \<Longrightarrow> limitAltText s = trim s"
  by (simp add: limitAltText_def Let_def)

lemma limitAltText_long: "200 \<le> length (trim s) \<Longrightarrow> limitAltText s = take 200 (trim s) @ ''...''"
  by (simp add: limitAltText_def Let_def min_def)

text \<open>
  C10. A description of exactly 200 letters is not cut by \<open>substring(0, 200)\<close>: the
  stripped and trimmed text is the description itself. The test \<open>altText.length === 200\<close>
  holds for it all the same, and the ellipsis is appended.
\<close>

theorem altText_exactly_200:
  "map_option altText
     (getImageDetails
        (DetailsFound ''https://upload.wikimedia.org/a.png''
           \<lparr> ImageDescription = Some (replicate 200 CHR ''a''), ObjectName = None,
             Categories = None, LicenseShortName = None, License = None, Artist = None \<rparr>)
        ''File:A.png'')
     = Some (replicate 200 CHR ''a'' @ ''...'')
   \<and> trim (stripTags (replicate 200 CHR ''a'')) = replicate 200 CHR ''a''
   \<and> take 200 (replicate 200 CHR ''a'') = replicate 200 CHR ''a''"
proof -
  have s: "stripTags (replicate 200 CHR ''a'') = replicate 200 CHR ''a''"
    by (simp add: stripTags_plain)
  have t: "trim (replicate 200 CHR ''a'') = replicate 200 CHR ''a''"
    by (rule trim_plain) (simp add: list_all_iff isWhiteSpace_def)
  show ?thesis
    unfolding getImageDetails_def deriveAltText_def
    using s t by (simp add: falsy_def limitAltText_long)
qed

section \<open>Admission\<close>

lemma attach_simps [simp]:
  "base64 (attach img t b) = b" "url (attach img t b) = url img" "title (attach img t b) = t"
  by (simp_all add: attach_def)

lemma processImage_cases:
  "processImage cfg net st img = st \<or>
   (\<exists>b t. prepareImage cfg net img = Some (b, t) \<and>
          totalPayloadSize st + estimateBase64Size b \<le> MAX_PAYLOAD_SIZE cfg \<and>
          processImage cfg net st img =
            \<lparr> processedImages = processedImages st @ [attach img t b],
              totalPayloadSize = totalPayloadSize st + estimateBase64Size b \<rparr>)"
  by (auto simp: processImage_def Let_def split: option.splits)

lemma processImage_skip:
  "prepareImage cfg net img = Some (b, t) \<Longrightarrow>
   MAX_PAYLOAD_SIZE cfg < totalPayloadSize st + estimateBase64Size b \<Longrightarrow>
   processImage cfg net st img = st"
  by (simp add: processImage_def)

lemma processImage_admit:
  "prepareImage cfg net img = Some (b, t) \<Longrightarrow>
   totalPayloadSize st + estimateBase64Size b \<le> MAX_PAYLOAD_SIZE cfg \<Longrightarrow>
   processImage cfg net st img =
     \<lparr> processedImages = processedImages st @ [attach img t b],
       totalPayloadSize = totalPayloadSize st + estimateBase64Size b \<rparr>"
  by (simp add: processImage_def)

lemma processImage_within_budget:
  "within_budget cfg st \<Longrightarrow> within_budget cfg (processImage cfg net st img)"
  using processImage_cases [of cfg net st img]
  by (auto simp: within_budget_def attach_def)

lemma foldl_within_budget:
  "within_budget cfg st \<Longrightarrow> within_budget cfg (foldl (processImage cfg net) st imgs)"
  by (induction imgs arbitrary: st) (auto intro: processImage_within_budget)

lemma admissionLoop_within_budget: "within_budget cfg (admissionLoop cfg net imgs)"
  unfolding admissionLoop_def by (rule foldl_within_budget) (simp add: within_budget_def)

lemma sum_list_take_le: "(\<Sum>x\<leftarrow>take n xs. (f x :: nat)) \<le> (\<Sum>x\<leftarrow>xs. f x)"
proof -
  have "(\<Sum>x\<leftarrow>xs. f x) = (\<Sum>x\<leftarrow>take n xs @ drop n xs. f x)"
    by simp
  also have "\<dots> = (\<Sum>x\<leftarrow>take n xs. f x) + (\<Sum>x\<leftarrow>drop n xs. f x)"
    by (simp only: map_append sum_list_append)
  finally show ?thesis
    by simp
qed

lemma processImages_take:
  "processImages cfg net imgs = take (MAX_IMAGES cfg) (processedImages (admissionLoop cfg net imgs))"
  by (simp add: processImages_def Let_def)

lemma foldl_all:
  assumes step: "\<And>st img. list_all Q (processedImages st) \<Longrightarrow>
                   list_all Q (processedImages (processImage cfg net st img))"
  shows "list_all Q (processedImages st) \<Longrightarrow>
         list_all Q (processedImages (foldl (processImage cfg net) st imgs))"
  by (induction imgs arbitrary: st) (auto intro: step)

lemma processImages_all:
  assumes step: "\<And>st img. list_all Q (processedImages st) \<Longrightarrow>
                   list_all Q (processedImages (processImage cfg net st img))"
  shows "list_all Q (processImages cfg net imgs)"
proof -
  have "list_all Q (processedImages (admissionLoop cfg net imgs))"
    unfolding admissionLoop_def by (rule foldl_all [OF step]) simp_all
  then show ?thesis
    unfolding processImages_take by (auto simp: list_all_iff dest: in_set_takeD)
qed

lemma processImage_origin:
  "\<exists>ys. processedImages (processImage cfg net st img) = processedImages st @ ys \<and>
        subseq (map origin ys) [origin img]"
  using processImage_cases [of cfg net st img]
  by (auto simp: origin_def attach_def)

lemma foldl_origin:
  "\<exists>ys. processedImages (foldl (processImage cfg net) st imgs) = processedImages st @ ys \<and>
        subseq (map origin ys) (map origin imgs)"
proof (induction imgs arbitrary: st)
  case Nil
  then show ?case by simp
next
  case (Cons img imgs)
  obtain ys where ys: "processedImages (processImage cfg net st img) = processedImages st @ ys"
      "subseq (map origin ys) [origin img]"
    using processImage_origin by blast
  obtain zs where zs: "processedImages (foldl (processImage cfg net) (processImage cfg net st img) imgs)
        = processedImages (processImage cfg net st img) @ zs"
      "subseq (map origin zs) (map origin imgs)"
    using Cons.IH by blast
  have "subseq (map origin ys @ map origin zs) ([origin img] @ map origin imgs)"
    using ys(2) zs(2) by (rule list_emb_append_mono)
  then show ?case
    using ys(1) zs(1) by auto
qed

lemma admissionLoop_origin:
  "subseq (map origin (processedImages (admissionLoop cfg net imgs))) (map origin imgs)"
  using foldl_origin [of cfg net "\<lparr> processedImages = [], totalPayloadSize = 0 \<rparr>" imgs]
  by (auto simp: admissionLoop_def)

lemma admissionLoop_snoc:
  "admissionLoop cfg net (xs @ img # ys) =
     foldl (processImage cfg net) (processImage cfg net (admissionLoop cfg net xs) img) ys"
  by (simp add: admissionLoop_def)

text \<open>
  C1. For every choice of the constants (those of \<open>app_config\<close> and of \<open>script_config\<close>
  among them): after every number \<open>k\<close> of loop iterations (and so at the end) the
  accumulator is at most the budget and is the sum of the estimates of the images
  admitted so far; the estimates of the returned images sum to at most the budget. An
  image that reaches the budget check with an estimate that does not fit leaves the
  state as it is, and the loop goes on with the later images from that state; one that
  fits is appended and counted.
\<close>

theorem budget_never_exceeded:
  "totalPayloadSize (admissionLoop cfg net (take k imageDetails)) \<le> MAX_PAYLOAD_SIZE cfg
   \<and> totalPayloadSize (admissionLoop cfg net (take k imageDetails))
       = (\<Sum>p\<leftarrow>processedImages (admissionLoop cfg net (take k imageDetails)). estimateBase64Size (base64 p))
   \<and> (\<Sum>p\<leftarrow>processImages cfg net imageDetails. estimateBase64Size (base64 p)) \<le> MAX_PAYLOAD_SIZE cfg
   \<and> (prepareImage cfg net img = Some (b, t) \<and>
        MAX_PAYLOAD_SIZE cfg < totalPayloadSize st + estimateBase64Size b \<longrightarrow>
        processImage cfg net st img = st)
   \<and> (prepareImage cfg net img = Some (b, t) \<and>
        MAX_PAYLOAD_SIZE cfg < totalPayloadSize (admissionLoop cfg net xs) + estimateBase64Size b \<longrightarrow>
        admissionLoop cfg net (xs @ img # ys) = foldl (processImage cfg net) (admissionLoop cfg net xs) ys)
   \<and> (prepareImage cfg net img = Some (b, t) \<and>
        totalPayloadSize st + estimateBase64Size b \<le> MAX_PAYLOAD_SIZE cfg \<longrightarrow>
        processImage cfg net st img =
          \<lparr> processedImages = processedImages st @ [attach img t b],
            totalPayloadSize = totalPayloadSize st + estimateBase64Size b \<rparr>)"
proof -
  have inv: "within_budget cfg (admissionLoop cfg net imgs)" for imgs
    by (rule admissionLoop_within_budget)
  have "(\<Sum>p\<leftarrow>processImages cfg net imageDetails. estimateBase64Size (base64 p))
          \<le> totalPayloadSize (admissionLoop cfg net imageDetails)"
    using inv [of imageDetails] unfolding processImages_take within_budget_def
    by (simp add: sum_list_take_le)
  then have "(\<Sum>p\<leftarrow>processImages cfg net imageDetails. estimateBase64Size (base64 p)) \<le> MAX_PAYLOAD_SIZE cfg"
    using inv [of imageDetails] unfolding within_budget_def by linarith
  then show ?thesis
    using inv [of "take k imageDetails"]
    by (simp add: within_budget_def processImage_skip processImage_admit admissionLoop_snoc)
qed

lemma small_prepare:
  "prepareImage small_config small_net (image_at u) =
     (if endsWith (toLowerCase u) ''.gif'' \<or> endsWith u ''.svg'' then None
      else if u = ''b'' then Some (''data:,AAAA'', ''some_picture.png'')
      else Some (''data:,AAAAAAAA'', ''some_picture.png''))"
  by (simp add: prepareImage_def small_config_def small_net_def image_at_def checkImageSize_def
      toLowerCase_def toLowerChar_def isWhiteSpace_def)

lemma small_sizes:
  "estimateBase64Size ''data:,AAAAAAAA'' = 6" "estimateBase64Size ''data:,AAAA'' = 3"
  by (simp_all add: estimateBase64Size_def)

lemma small_max: "MAX_PAYLOAD_SIZE small_config = 10"
  by (simp add: small_config_def)

lemma small_run:
  "admissionLoop small_config small_net [image_at ''a''] =
     \<lparr> processedImages = [attach (image_at ''a'') ''some_picture.png'' ''data:,AAAAAAAA''],
       totalPayloadSize = 6 \<rparr>"
  "admissionLoop small_config small_net [image_at ''a'', image_at ''c'', image_at ''b''] =
     \<lparr> processedImages = [attach (image_at ''a'') ''some_picture.png'' ''data:,AAAAAAAA'',
                          attach (image_at ''b'') ''some_picture.png'' ''data:,AAAA''],
       totalPayloadSize = 9 \<rparr>"
  by (simp_all add: admissionLoop_def processImage_def small_prepare endsWith_def small_sizes
      toLowerCase_def toLowerChar_def small_max)

lemma small_steps:
  "processImage small_config small_net
     \<lparr> processedImages = [attach (image_at ''a'') ''some_picture.png'' ''data:,AAAAAAAA''],
       totalPayloadSize = 6 \<rparr> (image_at ''c'')
   = \<lparr> processedImages = [attach (image_at ''a'') ''some_picture.png'' ''data:,AAAAAAAA''],
       totalPayloadSize = 6 \<rparr>"
  "processImage small_config small_net
     \<lparr> processedImages = [attach (image_at ''a'') ''some_picture.png'' ''data:,AAAAAAAA''],
       totalPayloadSize = 6 \<rparr> (image_at ''b'')
   = \<lparr> processedImages = [attach (image_at ''a'') ''some_picture.png'' ''data:,AAAAAAAA'',
                          attach (image_at ''b'') ''some_picture.png'' ''data:,AAAA''],
       totalPayloadSize = 9 \<rparr>"
  by (simp_all add: processImage_def small_prepare endsWith_def small_sizes
      toLowerCase_def toLowerChar_def small_max)

theorem budget_never_exceeded_witness:
  "totalPayloadSize (admissionLoop small_config small_net [image_at ''a'', image_at ''c'', image_at ''b'']) = 9
   \<and> 9 \<le> MAX_PAYLOAD_SIZE small_config
   \<and> prepareImage small_config small_net (image_at ''c'') = Some (''data:,AAAAAAAA'', ''some_picture.png'')
   \<and> MAX_PAYLOAD_SIZE small_config
        < totalPayloadSize (admissionLoop small_config small_net [image_at ''a'']) + estimateBase64Size ''data:,AAAAAAAA''
   \<and> processImage small_config small_net (admissionLoop small_config small_net [image_at ''a'']) (image_at ''c'')
        = admissionLoop small_config small_net [image_at ''a'']
   \<and> admissionLoop small_config small_net ([image_at ''a''] @ image_at ''c'' # [image_at ''b''])
        = foldl (processImage small_config small_net) (admissionLoop small_config small_net [image_at ''a'']) [image_at ''b'']
   \<and> prepareImage small_config small_net (image_at ''b'') = Some (''data:,AAAA'', ''some_picture.png'')
   \<and> processImage small_config small_net (admissionLoop small_config small_net [image_at ''a'']) (image_at ''b'')
        = \<lparr> processedImages = [attach (image_at ''a'') ''some_picture.png'' ''data:,AAAAAAAA'',
                               attach (image_at ''b'') ''some_picture.png'' ''data:,AAAA''],
            totalPayloadSize = 9 \<rparr>"
proof -
  have c: "prepareImage small_config small_net (image_at ''c'') = Some (''data:,AAAAAAAA'', ''some_picture.png'')"
    and b: "prepareImage small_config small_net (image_at ''b'') = Some (''data:,AAAA'', ''some_picture.png'')"
    by (simp_all add: small_prepare endsWith_def toLowerCase_def toLowerChar_def)
  note skip = budget_never_exceeded [of small_config small_net 3
      "[image_at ''a'', image_at ''c'', image_at ''b'']" "image_at ''c''" "''data:,AAAAAAAA''"
      "''some_picture.png''" "admissionLoop small_config small_net [image_at ''a'']"
      "[image_at ''a'']" "[image_at ''b'']"]
  note admit = budget_never_exceeded [of small_config small_net 3
      "[image_at ''a'', image_at ''c'', image_at ''b'']" "image_at ''b''" "''data:,AAAA''"
      "''some_picture.png''" "admissionLoop small_config small_net [image_at ''a'']"
      "[image_at ''a'']" "[image_at ''b'']"]
  show ?thesis
    using skip admit c b by (simp add: small_run small_steps small_sizes small_max)
qed

text \<open>
  C2. The returned sequence has at most \<open>MAX_IMAGES\<close> entries; it is the first
  \<open>MAX_IMAGES\<close> of the images the loop admitted, whatever their sizes, hence a prefix of
  them; and the admitted images stand in the order of the input, of which they are a
  subsequence (the admission pass writes only the title and the payload).
\<close>

theorem processImages_prefix:
  "length (processImages cfg net imageDetails) \<le> MAX_IMAGES cfg
   \<and> processImages cfg net imageDetails
       = take (MAX_IMAGES cfg) (processedImages (admissionLoop cfg net imageDetails))
   \<and> prefix (processImages cfg net imageDetails) (processedImages (admissionLoop cfg net imageDetails))
   \<and> subseq (map origin (processedImages (admissionLoop cfg net imageDetails))) (map origin imageDetails)"
  by (simp add: processImages_take take_is_prefix admissionLoop_origin)

lemma split_on_plain: "d \<notin> set s \<Longrightarrow> split_on d s = [s]"
  by (induction s) auto

lemma processImage_probed:
  "list_all (\<lambda>p. checkImageSize (SIZE_LIMIT cfg) (headRequest net (url p)) \<and>
                  estimateBase64Size (base64 p) \<le> MAX_PAYLOAD_SIZE cfg) (processedImages st) \<Longrightarrow>
   list_all (\<lambda>p. checkImageSize (SIZE_LIMIT cfg) (headRequest net (url p)) \<and>
                  estimateBase64Size (base64 p) \<le> MAX_PAYLOAD_SIZE cfg)
     (processedImages (processImage cfg net st img))"
  using processImage_cases [of cfg net st img]
  by (auto simp: prepareImage_def split: if_splits)

text \<open>
  C3 (as the code has it). For every returned image the size probe of its URL let it
  pass: the probe did not fail, and it reported no size or a size of at most the
  per-image ceiling. The estimate of the encoded payload is never compared with that
  ceiling; it is at most the total budget.
\<close>

theorem admitted_passed_probe:
  "list_all (\<lambda>p. checkImageSize (SIZE_LIMIT cfg) (headRequest net (url p)) \<and>
                  headRequest net (url p) \<noteq> HeadFailed \<and>
                  (headRequest net (url p) = HeadNoLength \<or>
                   (\<exists>n. headRequest net (url p) = HeadLength (Some n) \<and> n \<le> int (SIZE_LIMIT cfg))) \<and>
                  estimateBase64Size (base64 p) \<le> MAX_PAYLOAD_SIZE cfg)
     (processImages cfg net imageDetails)"
proof -
  have "list_all (\<lambda>p. checkImageSize (SIZE_LIMIT cfg) (headRequest net (url p)) \<and>
                  estimateBase64Size (base64 p) \<le> MAX_PAYLOAD_SIZE cfg)
          (processImages cfg net imageDetails)"
    by (rule processImages_all) (rule processImage_probed)
  moreover have "r \<noteq> HeadFailed \<and> (r = HeadNoLength \<or> (\<exists>n. r = HeadLength (Some n) \<and> n \<le> int l))"
    if "checkImageSize l r" for l r
    using that by (cases r) (auto simp: checkImageSize_def split: option.splits)
  ultimately show ?thesis
    unfolding list_all_iff by blast
qed

lemma large_payload_size: "estimateBase64Size large_payload = 1050000"
  by (simp add: estimateBase64Size_def large_payload_def split_on_plain)

text \<open>
  An image whose probe reports no size and whose payload is estimated at 1050000 bytes is
  returned by the pipeline, above the ceiling of 1048576 bytes.
\<close>

theorem admitted_above_ceiling:
  "processImages app_config unsized_net [image_at ''https://upload.wikimedia.org/photo.jpg'']
     = [attach (image_at ''https://upload.wikimedia.org/photo.jpg'') ''some_picture.png'' large_payload]
   \<and> estimateBase64Size
         (base64 (attach (image_at ''https://upload.wikimedia.org/photo.jpg'') ''some_picture.png'' large_payload))
       = 1050000
   \<and> SIZE_LIMIT app_config = 1048576
   \<and> \<not> estimateBase64Size
         (base64 (attach (image_at ''https://upload.wikimedia.org/photo.jpg'') ''some_picture.png'' large_payload))
       \<le> SIZE_LIMIT app_config"
proof -
  have p: "prepareImage app_config unsized_net (image_at ''https://upload.wikimedia.org/photo.jpg'')
             = Some (large_payload, ''some_picture.png'')"
    by (simp add: prepareImage_def unsized_net_def image_at_def checkImageSize_def endsWith_def
        toLowerCase_def toLowerChar_def isWhiteSpace_def)
  have m: "MAX_PAYLOAD_SIZE app_config = 17825792" "MAX_IMAGES app_config = 15"
      "SIZE_LIMIT app_config = 1048576"
    by (simp_all add: app_config_def)
  show ?thesis
    by (simp add: processImages_def admissionLoop_def processImage_def p m large_payload_size)
qed

lemma processImage_no_gif:
  "list_all (\<lambda>p. \<not> endsWith (toLowerCase (url p)) ''.gif'') (processedImages st) \<Longrightarrow>
   list_all (\<lambda>p. \<not> endsWith (toLowerCase (url p)) ''.gif'')
     (processedImages (processImage cfg net st img))"
  using processImage_cases [of cfg net st img]
  by (auto simp: prepareImage_def split: if_splits)

text \<open>
  C4. An image whose URL ends in \<open>.gif\<close>, in any letter case, leaves the state of the
  loop as it is, and no returned image has such a URL.
\<close>

theorem no_gif_admitted:
  "(endsWith (toLowerCase (url img)) ''.gif'' \<longrightarrow> processImage cfg net st img = st)
   \<and> list_all (\<lambda>p. \<not> endsWith (toLowerCase (url p)) ''.gif'') (processImages cfg net imageDetails)"
proof -
  have "list_all (\<lambda>p. \<not> endsWith (toLowerCase (url p)) ''.gif'') (processImages cfg net imageDetails)"
    by (rule processImages_all) (rule processImage_no_gif)
  then show ?thesis
    by (simp add: processImage_def prepareImage_def)
qed

theorem no_gif_admitted_witness:
  "endsWith (toLowerCase (url (image_at ''https://upload.wikimedia.org/Rotating.GIF''))) ''.gif''
   \<and> processImage small_config small_net
        (admissionLoop small_config small_net [image_at ''a''])
        (image_at ''https://upload.wikimedia.org/Rotating.GIF'')
       = admissionLoop small_config small_net [image_at ''a'']
   \<and> processImages small_config small_net
        [image_at ''a'', image_at ''https://upload.wikimedia.org/Rotating.GIF'']
       = [attach (image_at ''a'') ''some_picture.png'' ''data:,AAAAAAAA'']"
proof -
  have g: "endsWith (toLowerCase (url (image_at ''https://upload.wikimedia.org/Rotating.GIF''))) ''.gif''"
    by (simp add: image_at_def endsWith_def toLowerCase_def toLowerChar_def)
  note skip = no_gif_admitted [of "image_at ''https://upload.wikimedia.org/Rotating.GIF''"
      small_config small_net "admissionLoop small_config small_net [image_at ''a'']"
      "[image_at ''a'', image_at ''https://upload.wikimedia.org/Rotating.GIF'']"]
  have "MAX_IMAGES small_config = 15"
    by (simp add: small_config_def)
  then have "processImages small_config small_net
          [image_at ''a'', image_at ''https://upload.wikimedia.org/Rotating.GIF'']
        = [attach (image_at ''a'') ''some_picture.png'' ''data:,AAAAAAAA'']"
    by (simp add: processImages_def admissionLoop_def processImage_def small_prepare endsWith_def
        small_sizes toLowerCase_def toLowerChar_def small_max)
  then show ?thesis
    using skip g by (simp add: small_run)
qed

section \<open>Model invocation\<close>

lemma relayPath_None:
  "relayPath relay = None \<longleftrightarrow> relay = NetworkError \<or> (\<exists>status. relay = HttpError status) \<or> relay = HttpOk None"
  by (auto simp: relayPath_def split: response.splits option.splits)

lemma directPath_no_key: "falsy apiKey \<Longrightarrow> directPath apiKey direct = ([], Inl ApiKeyRequiredProxyUnavailable)"
  by (simp add: directPath_def)

lemma directPath_key:
  "\<not> falsy apiKey \<Longrightarrow>
   fst (directPath apiKey direct) = [DirectRequest] \<and>
   (direct = HttpOk (Some reply) \<longrightarrow> snd (directPath apiKey direct) = Inr reply) \<and>
   ((\<forall>a. direct \<noteq> HttpOk (Some a)) \<longrightarrow> isl (snd (directPath apiKey direct)))"
  by (auto simp: directPath_def split: response.splits option.splits)

lemma analyzeImages_cases:
  "analyzeImages True apiKey (HttpOk (Some answer)) direct = ([RelayRequest], Inr answer)"
  "relayPath relay = None \<Longrightarrow>
     analyzeImages True apiKey relay direct
       = (RelayRequest # fst (directPath apiKey direct), snd (directPath apiKey direct))"
  "analyzeImages False apiKey relay direct = directPath apiKey direct"
  by (simp_all add: analyzeImages_def relayPath_def split: prod.splits)

lemma getSearchTerms_cases:
  "getSearchTerms True apiKey (HttpOk (Some answer)) direct = ([RelayRequest], Inr (parseSearchTerms answer))"
  "relayPath relay = None \<Longrightarrow>
     getSearchTerms True apiKey relay direct
       = (RelayRequest # fst (directPath apiKey direct),
          map_sum id parseSearchTerms (snd (directPath apiKey direct)))"
  "getSearchTerms False apiKey relay direct
     = (fst (directPath apiKey direct), map_sum id parseSearchTerms (snd (directPath apiKey direct)))"
  by (simp_all add: getSearchTerms_def relayPath_def split: prod.splits sum.splits)

text \<open>
  C5. With the relay enabled the relay request is sent first and a reply read from it
  is the result; when it fails (no connection, a status that is not a success, or a body
  that cannot be read) and a key is given, the direct request follows and decides the
  result. Whenever the direct path is reached without a key, the result is the
  key-required error and no direct request is sent. With the relay disabled no relay
  request is sent: with a key exactly the direct request is. This holds for the vision
  call (\<open>analyzeImages\<close>) and for the search-term call (\<open>getSearchTerms\<close>).
\<close>

theorem relay_then_direct:
  "(relay = HttpOk (Some answer) \<longrightarrow>
      analyzeImages True apiKey relay direct = ([RelayRequest], Inr answer) \<and>
      getSearchTerms True apiKey relay direct = ([RelayRequest], Inr (parseSearchTerms answer)))
   \<and> ((relay = NetworkError \<or> relay = HttpError status \<or> relay = HttpOk None) \<and> \<not> falsy apiKey \<longrightarrow>
      fst (analyzeImages True apiKey relay direct) = [RelayRequest, DirectRequest] \<and>
      fst (getSearchTerms True apiKey relay direct) = [RelayRequest, DirectRequest] \<and>
      (direct = HttpOk (Some reply) \<longrightarrow>
         snd (analyzeImages True apiKey relay direct) = Inr reply \<and>
         snd (getSearchTerms True apiKey relay direct) = Inr (parseSearchTerms reply)) \<and>
      ((\<forall>a. direct \<noteq> HttpOk (Some a)) \<longrightarrow>
         isl (snd (analyzeImages True apiKey relay direct)) \<and>
         isl (snd (getSearchTerms True apiKey relay direct))))
   \<and> ((relay = NetworkError \<or> relay = HttpError status \<or> relay = HttpOk None) \<and> falsy apiKey \<longrightarrow>
      analyzeImages True apiKey relay direct = ([RelayRequest], Inl ApiKeyRequiredProxyUnavailable) \<and>
      getSearchTerms True apiKey relay direct = ([RelayRequest], Inl ApiKeyRequiredProxyUnavailable))
   \<and> (falsy apiKey \<longrightarrow>
      analyzeImages False apiKey relay direct = ([], Inl ApiKeyRequiredProxyUnavailable) \<and>
      getSearchTerms False apiKey relay direct = ([], Inl ApiKeyRequiredProxyUnavailable))
   \<and> (\<not> falsy apiKey \<longrightarrow>
      fst (analyzeImages False apiKey relay direct) = [DirectRequest] \<and>
      fst (getSearchTerms False apiKey relay direct) = [DirectRequest] \<and>
      (direct = HttpOk (Some reply) \<longrightarrow>
         snd (analyzeImages False apiKey relay direct) = Inr reply \<and>
         snd (getSearchTerms False apiKey relay direct) = Inr (parseSearchTerms reply)) \<and>
      ((\<forall>a. direct \<noteq> HttpOk (Some a)) \<longrightarrow>
         isl (snd (analyzeImages False apiKey relay direct)) \<and>
         isl (snd (getSearchTerms False apiKey relay direct))))"
proof -
  have failed: "relayPath relay = None"
    if "relay = NetworkError \<or> relay = HttpError status \<or> relay = HttpOk None"
    using that by (auto simp: relayPath_None)
  have isl_map: "isl (map_sum id parseSearchTerms r) = isl r" for r :: "error + string"
    by (cases r) auto
  show ?thesis
    using directPath_key [of apiKey direct reply] directPath_no_key [of apiKey direct]
    by (auto simp: analyzeImages_cases getSearchTerms_cases failed isl_map)
qed

theorem relay_then_direct_witness:
  "analyzeImages True None (HttpOk (Some ''An answer.'')) NetworkError
     = ([RelayRequest], Inr ''An answer.'')
   \<and> analyzeImages True (Some ''key'') (HttpError 500) (HttpOk (Some ''An answer.''))
     = ([RelayRequest, DirectRequest], Inr ''An answer.'')
   \<and> fst (analyzeImages True (Some ''key'') (HttpError 500) NetworkError) = [RelayRequest, DirectRequest]
   \<and> isl (snd (analyzeImages True (Some ''key'') (HttpError 500) NetworkError))
   \<and> analyzeImages True None (HttpError 500) (HttpOk (Some ''An answer.''))
     = ([RelayRequest], Inl ApiKeyRequiredProxyUnavailable)
   \<and> analyzeImages False (Some []) (HttpOk (Some ''Unused.'')) (HttpOk (Some ''An answer.''))
     = ([], Inl ApiKeyRequiredProxyUnavailable)
   \<and> analyzeImages False (Some ''key'') (HttpOk (Some ''Unused.'')) (HttpOk (Some ''An answer.''))
     = ([DirectRequest], Inr ''An answer.'')
   \<and> fst (analyzeImages False (Some ''key'') NetworkError (HttpError 500)) = [DirectRequest]
   \<and> isl (snd (analyzeImages False (Some ''key'') NetworkError (HttpError 500)))"
proof -
  have k: "\<not> falsy (Some ''key'')" "falsy None" "falsy (Some [])"
    by (simp_all add: falsy_def)
  have 1: "analyzeImages True None (HttpOk (Some ''An answer.'')) NetworkError
     = ([RelayRequest], Inr ''An answer.'')"
    using relay_then_direct [of "HttpOk (Some ''An answer.'')" "''An answer.''" None NetworkError 500 "[]"]
    by simp
  have 2: "analyzeImages True (Some ''key'') (HttpError 500) (HttpOk (Some ''An answer.''))
     = ([RelayRequest, DirectRequest], Inr ''An answer.'')"
    using relay_then_direct [of "HttpError 500" "[]" "Some ''key''" "HttpOk (Some ''An answer.'')" 500
        "''An answer.''"] k
    by (simp add: prod_eq_iff)
  have 3: "fst (analyzeImages True (Some ''key'') (HttpError 500) NetworkError) = [RelayRequest, DirectRequest]
     \<and> isl (snd (analyzeImages True (Some ''key'') (HttpError 500) NetworkError))"
    using relay_then_direct [of "HttpError 500" "[]" "Some ''key''" NetworkError 500 "[]"] k
    by simp
  have 4: "analyzeImages True None (HttpError 500) (HttpOk (Some ''An answer.''))
     = ([RelayRequest], Inl ApiKeyRequiredProxyUnavailable)"
    using relay_then_direct [of "HttpError 500" "[]" None "HttpOk (Some ''An answer.'')" 500 "[]"] k
    by simp
  have 5: "analyzeImages False (Some []) (HttpOk (Some ''Unused.'')) (HttpOk (Some ''An answer.''))
     = ([], Inl ApiKeyRequiredProxyUnavailable)"
    using relay_then_direct [of "HttpOk (Some ''Unused.'')" "[]" "Some []" "HttpOk (Some ''An answer.'')"
        500 "[]"] k
    by simp
  have 6: "analyzeImages False (Some ''key'') (HttpOk (Some ''Unused.'')) (HttpOk (Some ''An answer.''))
     = ([DirectRequest], Inr ''An answer.'')"
    using relay_then_direct [of "HttpOk (Some ''Unused.'')" "[]" "Some ''key''"
        "HttpOk (Some ''An answer.'')" 500 "''An answer.''"] k
    by (simp add: prod_eq_iff)
  have 7: "fst (analyzeImages False (Some ''key'') NetworkError (HttpError 500)) = [DirectRequest]
     \<and> isl (snd (analyzeImages False (Some ''key'') NetworkError (HttpError 500)))"
    using relay_then_direct [of NetworkError "[]" "Some ''key''" "HttpError 500" 500 "[]"] k
    by simp
  show ?thesis
    using 1 2 3 4 5 6 7 by simp
qed

section \<open>Placeholders\<close>

lemma startsWith_iff: "startsWith s p \<longleftrightarrow> (\<exists>post. s = p @ post)"
proof
  assume "startsWith s p"
  then have "s = p @ drop (length p) s"
    unfolding startsWith_def by (metis append_take_drop_id)
  then show "\<exists>post. s = p @ post" ..
next
  assume "\<exists>post. s = p @ post"
  then show "startsWith s p"
    by (auto simp: startsWith_def)
qed

lemma indexOf_Some_iff:
  "indexOf s p = Some i \<longleftrightarrow>
     i \<le> length s \<and> startsWith (drop i s) p \<and> (\<forall>j<i. \<not> startsWith (drop j s) p)"
proof (induction s arbitrary: i)
  case Nil
  then show ?case by (auto simp: startsWith_def)
next
  case (Cons c cs)
  show ?case
  proof (cases "startsWith (c # cs) p")
    case True
    then show ?thesis by (cases i) auto
  next
    case False
    show ?thesis
    proof (cases i)
      case 0
      with False show ?thesis by simp
    next
      case (Suc k)
      have "(\<forall>j<Suc k. \<not> startsWith (drop j (c # cs)) p) \<longleftrightarrow> (\<forall>j<k. \<not> startsWith (drop j cs) p)"
        using False by (auto simp: less_Suc_eq_0_disj)
      with False Suc Cons.IH [of k] show ?thesis by auto
    qed
  qed
qed

lemma all_le_Suc: "(\<forall>j\<le>Suc n. P j) \<longleftrightarrow> P 0 \<and> (\<forall>j\<le>n. P (Suc j))"
  by (metis Suc_le_mono le0 not0_implies_Suc)

lemma indexOf_None_iff: "indexOf s p = None \<longleftrightarrow> (\<forall>j\<le>length s. \<not> startsWith (drop j s) p)"
proof (induction s)
  case Nil
  then show ?case by (auto simp: startsWith_def)
next
  case (Cons c cs)
  then show ?case by (simp add: all_le_Suc)
qed

lemma js_includes_iff: "js_includes s p \<longleftrightarrow> (\<exists>pre post. s = pre @ p @ post)"
proof
  assume "js_includes s p"
  then obtain i where "indexOf s p = Some i"
    by (auto simp: js_includes_def)
  then have "startsWith (drop i s) p"
    by (simp add: indexOf_Some_iff)
  then obtain post where "drop i s = p @ post"
    by (auto simp: startsWith_iff)
  then have "s = take i s @ p @ post"
    by (metis append_take_drop_id)
  then show "\<exists>pre post. s = pre @ p @ post"
    by blast
next
  assume "\<exists>pre post. s = pre @ p @ post"
  then obtain pre post where s: "s = pre @ p @ post"
    by blast
  then have "startsWith (drop (length pre) s) p" "length pre \<le> length s"
    by (auto simp: startsWith_iff)
  then have "indexOf s p \<noteq> None"
    by (auto simp: indexOf_None_iff)
  then show "js_includes s p"
    by (simp add: js_includes_def)
qed

lemma js_replace_first:
  assumes "\<forall>j<length pre. \<not> startsWith (drop j (pre @ p @ post)) p"
  shows "js_replace (pre @ p @ post) p r = pre @ getSubstitution p pre post r @ post"
proof -
  have "indexOf (pre @ p @ post) p = Some (length pre)"
    using assms by (simp add: indexOf_Some_iff startsWith_iff)
  then show ?thesis
    by (simp add: js_replace_def)
qed



lemma execAll_shape: "(p, f) \<in> set (execAll n s) \<Longrightarrow> p = ''[[['' @ f @ '']]]''"
  by (induction n s rule: execAll.induct) (auto split: if_splits option.splits)

lemma setProperty_keys: "fst ` set (setProperty m k v) = insert k (fst ` set m)"
  by (induction m k v rule: setProperty.induct) auto

lemma setProperty_distinct: "distinct (map fst m) \<Longrightarrow> distinct (map fst (setProperty m k v))"
  by (induction m k v rule: setProperty.induct) (auto simp: setProperty_keys)

lemma setProperty_entries: "set (setProperty m k v) \<subseteq> insert (k, v) (set m)"
  by (induction m k v rule: setProperty.induct) auto

lemma setProperty_same: "(k, v) \<in> set m \<Longrightarrow> distinct (map fst m) \<Longrightarrow> setProperty m k v = m"
  by (induction m k v rule: setProperty.induct) (auto simp: rev_image_eqI)

lemma foldl_setProperty_keys:
  "fst ` set (foldl (\<lambda>m (p, f). setProperty m p f) m xs) = fst ` set m \<union> fst ` set xs"
proof (induction xs arbitrary: m)
  case Nil
  then show ?case by simp
next
  case (Cons x xs)
  obtain p f where x: "x = (p, f)"
    by (cases x)
  have "fst ` set (foldl (\<lambda>m (p, f). setProperty m p f) (setProperty m p f) xs)
          = fst ` set (setProperty m p f) \<union> fst ` set xs"
    by (rule Cons.IH)
  then show ?case
    using x by (simp add: setProperty_keys)
qed

lemma foldl_setProperty_distinct:
  "distinct (map fst m) \<Longrightarrow> distinct (map fst (foldl (\<lambda>m (p, f). setProperty m p f) m xs))"
  by (induction xs arbitrary: m) (auto simp: setProperty_distinct split: prod.splits)

lemma foldl_setProperty_entries:
  "set (foldl (\<lambda>m (p, f). setProperty m p f) m xs) \<subseteq> set m \<union> set xs"
proof (induction xs arbitrary: m)
  case Nil
  then show ?case by simp
next
  case (Cons x xs)
  obtain p f where x: "x = (p, f)"
    by (cases x)
  have "set (foldl (\<lambda>m (p, f). setProperty m p f) (setProperty m p f) xs)
          \<subseteq> set (setProperty m p f) \<union> set xs"
    by (rule Cons.IH)
  then show ?case
    using setProperty_entries [of m p f] x by auto
qed

lemma extract_distinct: "distinct (map fst (extractPlaceholders s))"
  unfolding extractPlaceholders_def by (rule foldl_setProperty_distinct) simp

lemma extract_subset: "set (extractPlaceholders s) \<subseteq> set (execAll 0 s)"
  unfolding extractPlaceholders_def using foldl_setProperty_entries [of "[]" "execAll 0 s"] by simp

lemma extract_keys: "fst ` set (extractPlaceholders s) = fst ` set (execAll 0 s)"
  unfolding extractPlaceholders_def by (simp add: foldl_setProperty_keys)

lemma extract_entries: "set (extractPlaceholders s) = set (execAll 0 s)"
proof
  show "set (extractPlaceholders s) \<subseteq> set (execAll 0 s)"
    by (rule extract_subset)
  show "set (execAll 0 s) \<subseteq> set (extractPlaceholders s)"
  proof
    fix e
    assume e: "e \<in> set (execAll 0 s)"
    obtain p f where pf: "e = (p, f)"
      by (cases e)
    have "p \<in> fst ` set (extractPlaceholders s)"
      using e pf extract_keys [of s] by force
    then obtain f' where f': "(p, f') \<in> set (extractPlaceholders s)"
      by auto
    then have "(p, f') \<in> set (execAll 0 s)"
      using extract_subset by blast
    then have "p = ''[[['' @ f' @ '']]]''" "p = ''[[['' @ f @ '']]]''"
      using e pf execAll_shape by blast+
    then have "f' = f"
      by simp
    with f' pf show "e \<in> set (extractPlaceholders s)"
      by simp
  qed
qed




lemma resolve_no_tokens: "execAll 0 s = [] \<Longrightarrow> resolvePlaceholders imgTag images s = s"
  by (simp add: resolvePlaceholders_def extractPlaceholders_def)

lemma substitute_unmatched:
  "findImage images filename = None \<Longrightarrow> substitute imgTag images formatted (placeholder, filename) = formatted"
  by (simp add: substitute_def)

lemma foldl_substitute_unmatched:
  "\<forall>e\<in>set es. findImage images (snd e) = None \<Longrightarrow> foldl (substitute imgTag images) s es = s"
  by (induction es arbitrary: s) (auto simp: substitute_def split: prod.splits)

lemma findImage_Some_iff:
  "findImage images filename = Some img \<longleftrightarrow>
     (\<exists>i<length images. images ! i = img \<and>
        titleMatches (title img) (trim (toLowerCase filename)) \<and>
        (\<forall>j<i. \<not> titleMatches (title (images ! j)) (trim (toLowerCase filename))))"
  unfolding findImage_def Let_def find_Some_iff by auto

lemma findImage_None_iff:
  "findImage images filename = None \<longleftrightarrow>
     list_all (\<lambda>img. \<not> titleMatches (title img) (trim (toLowerCase filename))) images"
  unfolding findImage_def Let_def find_None_iff list_all_iff by auto

lemma stripExtension_ext:
  "ext \<noteq> [] \<Longrightarrow> list_all isWordChar ext \<Longrightarrow> stripExtension (base @ CHR ''.'' # ext) = base"
proof (induction base)
  case Nil
  then show ?case by simp
next
  case (Cons c base)
  have "\<not> list_all isWordChar (base @ CHR ''.'' # ext)"
    by (simp add: isWordChar_def)
  with Cons show ?case by simp
qed

lemma execAll_drop: "execAll n s = execAll 0 (drop n s)"
  by (induction n s rule: execAll.induct) simp_all

lemma execAll_numeral: "execAll (numeral k) s = execAll 0 (drop (numeral k) s)"
  by (rule execAll_drop)

lemma matchBody_Some:
  "matchBody s = Some f \<Longrightarrow>
     (\<exists>rest. s = f @ '']]]'' @ rest) \<and> (\<forall>u v. f @ '']]]'' = u @ '']]]'' @ v \<longrightarrow> v = [])"
proof (induction s arbitrary: f)
  case Nil
  then show ?case by simp
next
  case (Cons c cs)
  show ?case
  proof (cases "startsWith (c # cs) '']]]''")
    case True
    with Cons.prems have f: "f = []"
      by simp
    have "v = []" if "'']]]'' = u @ '']]]'' @ v" for u v :: string
    proof -
      have "length '']]]'' = length (u @ '']]]'' @ v)"
        using that by (rule arg_cong)
      then show ?thesis by simp
    qed
    with True f show ?thesis
      by (auto simp: startsWith_iff)
  next
    case False
    with Cons.prems obtain f' where f': "matchBody cs = Some f'" "f = c # f'"
      by (auto split: if_splits)
    from Cons.IH [OF f'(1)] obtain rest where rest: "cs = f' @ '']]]'' @ rest"
      and lazy: "\<forall>u v. f' @ '']]]'' = u @ '']]]'' @ v \<longrightarrow> v = []"
      by blast
    have "v = []" if eq: "(c # f') @ '']]]'' = u @ '']]]'' @ v" for u v
    proof (cases u)
      case Nil
      with eq have "c # cs = '']]]'' @ v @ rest"
        using rest by simp
      then have "startsWith (c # cs) '']]]''"
        unfolding startsWith_iff by blast
      with False show ?thesis by simp
    next
      case (Cons a u')
      with eq have "f' @ '']]]'' = u' @ '']]]'' @ v"
        by simp
      with lazy show ?thesis by blast
    qed
    then show ?thesis
      using f'(2) rest by auto
  qed
qed

lemma execAll_token: "(p, f) \<in> set (execAll n s) \<Longrightarrow> tokenText p"
proof (induction n s rule: execAll.induct)
  case (1 n)
  then show ?case by simp
next
  case (2 n c cs)
  then show ?case by simp
next
  case (3 c cs)
  show ?case
  proof (cases "startsWith (c # cs) ''[[[''")
    case True
    show ?thesis
    proof (cases "matchBody (drop 3 (c # cs))")
      case None
      with True 3 show ?thesis by simp
    next
      case (Some f0)
      from matchBody_Some [OF Some] have "tokenText (''[[['' @ f0 @ '']]]'')"
        unfolding tokenText_def by blast
      with True Some 3 show ?thesis by auto
    qed
  next
    case False
    with 3 show ?thesis by simp
  qed
qed

lemma js_includes_Cons: "js_includes cs p \<Longrightarrow> js_includes (c # cs) p"
  unfolding js_includes_iff by (metis append_Cons)

lemma js_includes_drop: "js_includes (drop n s) p \<Longrightarrow> js_includes s p"
  unfolding js_includes_iff by (metis append_assoc append_take_drop_id)

lemma execAll_occurs: "(p, f) \<in> set (execAll n s) \<Longrightarrow> js_includes s p"
proof (induction n s rule: execAll.induct)
  case (1 n)
  then show ?case by simp
next
  case (2 n c cs)
  then show ?case by (simp add: js_includes_Cons)
next
  case (3 c cs)
  show ?case
  proof (cases "startsWith (c # cs) ''[[[''")
    case True
    show ?thesis
    proof (cases "matchBody (drop 3 (c # cs))")
      case None
      with True 3 show ?thesis by (simp add: js_includes_Cons)
    next
      case (Some f0)
      from matchBody_Some [OF Some] obtain rest where "drop 3 (c # cs) = f0 @ '']]]'' @ rest"
        by blast
      moreover have "c # cs = ''[[['' @ drop 3 (c # cs)"
        using True unfolding startsWith_def by (metis append_take_drop_id length_Cons list.size(3) numeral_3_eq_3)
      ultimately have "c # cs = [] @ (''[[['' @ f0 @ '']]]'') @ rest"
        by simp
      then have here: "js_includes (c # cs) (''[[['' @ f0 @ '']]]'')"
        unfolding js_includes_iff by blast
      from 3 True Some show ?thesis
        using here by (auto simp: js_includes_Cons)
    qed
  next
    case False
    with 3 show ?thesis by (simp add: js_includes_Cons)
  qed
qed

lemma token_end:
  assumes "tokenText x" and "x = u @ '']]]'' @ v"
  shows "v = []"
proof -
  from assms(1) obtain f where x: "x = ''[[['' @ f @ '']]]''"
    and lazy: "\<forall>u v. f @ '']]]'' = u @ '']]]'' @ v \<longrightarrow> v = []"
    unfolding tokenText_def by blast
  from x assms(2) have eq: "''[[['' @ f @ '']]]'' = u @ '']]]'' @ v"
    by simp
  show ?thesis
  proof (cases u)
    case Nil
    with eq show ?thesis by simp
  next
    case u1: (Cons a1 u1)
    show ?thesis
    proof (cases u1)
      case Nil
      with eq u1 show ?thesis by simp
    next
      case u2: (Cons a2 u2)
      show ?thesis
      proof (cases u2)
        case Nil
        with eq u1 u2 show ?thesis by simp
      next
        case (Cons a3 u3)
        with eq u1 u2 have "f @ '']]]'' = u3 @ '']]]'' @ v"
          by simp
        with lazy show ?thesis by blast
      qed
    qed
  qed
qed

lemma token_ends: "tokenText x \<Longrightarrow> suffix '']]]'' x"
  unfolding tokenText_def suffix_def by (metis append_assoc)

lemma token_starts: "tokenText x \<Longrightarrow> \<exists>y. x = CHR ''['' # y"
  unfolding tokenText_def by auto

lemma brackets_suffix: "suffix ws '']]]'' \<Longrightarrow> ws \<noteq> [] \<Longrightarrow> \<exists>y. ws = CHR '']'' # y"
  by (auto simp: suffix_Cons)

lemma occurs_prepend: "occurs t k b \<Longrightarrow> occurs t k (a @ b)"
proof (cases k)
  case 0
  then show ?thesis by simp
next
  case (Suc j)
  assume "occurs t k b"
  with Suc obtain x y where "b = x @ t @ y" "occurs t j y"
    by auto
  then have "a @ b = (a @ x) @ t @ y \<and> occurs t j y"
    by simp
  then show ?thesis
    unfolding Suc occurs.simps by blast
qed

lemma occurs_less: "occurs t (Suc k) s \<Longrightarrow> occurs t k s"
proof (induction k arbitrary: s)
  case 0
  then show ?case by simp
next
  case (Suc k)
  then obtain a b where ab: "s = a @ t @ b" "occurs t (Suc k) b"
    by auto
  from Suc.IH [OF ab(2)] have "occurs t k b" .
  with ab(1) show ?case
    unfolding occurs.simps by blast
qed

lemma occurs_mono: "j \<le> k \<Longrightarrow> occurs t k s \<Longrightarrow> occurs t j s"
proof (induction k)
  case 0
  then show ?case by simp
next
  case (Suc k)
  show ?case
  proof (cases "j = Suc k")
    case True
    with Suc.prems show ?thesis by simp
  next
    case False
    with Suc.prems have "j \<le> k"
      by simp
    moreover have "occurs t k s"
      using Suc.prems(2) by (rule occurs_less)
    ultimately show ?thesis
      by (rule Suc.IH)
  qed
qed

lemma occurs_includes: "occurs t (Suc k) s \<Longrightarrow> js_includes s t"
  unfolding js_includes_iff by auto

text \<open>
  Two token texts that overlap in a text end together. Below, \<open>t = us @ ws\<close> and \<open>p\<close>
  starts where \<open>ws\<close> starts: then \<open>p\<close> is \<open>ws\<close>.
\<close>

lemma overlap_exact:
  assumes p: "tokenText p" and t: "tokenText t"
    and split: "t = us @ ws" and ws: "ws \<noteq> []"
    and eq: "p @ b = ws @ d"
  shows "p = ws \<and> b = d"
proof -
  from append_eq_append_conv2 [THEN iffD1, OF eq]
  consider (short) ys where "p = ws @ ys" "ys @ b = d"
    | (long) zs where "p @ zs = ws" "b = zs @ d"
    by blast
  then show ?thesis
  proof cases
    case short
    show ?thesis
    proof (cases "ys = []")
      case True
      with short show ?thesis by simp
    next
      case False
      have sw: "suffix ws t"
        using split by (simp add: suffix_def)
      show ?thesis
      proof (cases "3 \<le> length ws")
        case True
        have "suffix '']]]'' ws"
          by (rule suffix_length_suffix [OF token_ends [OF t] sw]) (use True in simp)
        then obtain w where "ws = w @ '']]]''"
          by (auto simp: suffix_def)
        with short have "p = w @ '']]]'' @ ys"
          by simp
        with token_end [OF p] False show ?thesis by blast
      next
        case short_ws: False
        have "suffix ws '']]]''"
          by (rule suffix_length_suffix [OF sw token_ends [OF t]]) (use short_ws in simp)
        with ws obtain y where "ws = CHR '']'' # y"
          using brackets_suffix by blast
        moreover obtain y' where "p = CHR ''['' # y'"
          using token_starts [OF p] by blast
        ultimately show ?thesis
          using short by simp
      qed
    qed
  next
    case long
    show ?thesis
    proof (cases "zs = []")
      case True
      with long show ?thesis by simp
    next
      case False
      obtain w where "p = w @ '']]]''"
        using token_ends [OF p] by (auto simp: suffix_def)
      with long split have "t = (us @ w) @ '']]]'' @ zs"
        by auto
      with token_end [OF t] False show ?thesis by blast
    qed
  qed
qed

text \<open>where an occurrence of t lies with respect to an occurrence of p that does not end t\<close>

lemma occurrence_cases:
  assumes p: "tokenText p" and t: "tokenText t"
    and eq: "pre @ p @ post = a @ t @ b"
    and np: "\<not> suffix p t"
  obtains (before) r where "pre = a @ t @ r" "b = r @ p @ post"
    | (after) r where "post = r @ t @ b" "a = pre @ p @ r"
    | (inside) u where "p = u @ t" "a = pre @ u" "b = post"
proof -
  from append_eq_append_conv2 [THEN iffD1, OF eq]
  consider (t_first) us where "pre = a @ us" "us @ p @ post = t @ b"
    | (p_first) us where "pre @ us = a" "p @ post = us @ t @ b"
    by blast
  then show ?thesis
  proof cases
    case t_first
    from append_eq_append_conv2 [THEN iffD1, OF t_first(2)]
    consider (apart) ws where "us = t @ ws" "ws @ p @ post = b"
      | (overlap) ws where "us @ ws = t" "p @ post = ws @ b"
      by blast
    then show ?thesis
    proof cases
      case apart
      with t_first show ?thesis by (intro before) auto
    next
      case overlap
      show ?thesis
      proof (cases "ws = []")
        case True
        with overlap t_first show ?thesis by (intro before [of "[]"]) auto
      next
        case False
        from overlap_exact [OF p t overlap(1) [symmetric] False overlap(2)]
        have "suffix p t"
          using overlap(1) by (auto simp: suffix_def)
        with np show ?thesis by simp
      qed
    qed
  next
    case p_first
    from append_eq_append_conv2 [THEN iffD1, OF p_first(2) [symmetric]]
    consider (apart) ws where "us = p @ ws" "ws @ t @ b = post"
      | (overlap) ws where "us @ ws = p" "t @ b = ws @ post"
      by blast
    then show ?thesis
    proof cases
      case apart
      with p_first show ?thesis by (intro after [of ws]) auto
    next
      case overlap
      show ?thesis
      proof (cases "ws = []")
        case True
        with overlap p_first show ?thesis by (intro after [of "[]"]) auto
      next
        case False
        from overlap_exact [OF t p overlap(1) [symmetric] False overlap(2)]
        have "t = ws" "b = post"
          by simp_all
        with overlap p_first show ?thesis by (intro inside [of us]) auto
      qed
    qed
  qed
qed

text \<open>replacing an occurrence of p by any text x costs at most one occurrence of t\<close>

lemma occurs_replace:
  assumes p: "tokenText p" and t: "tokenText t" and np: "\<not> suffix p t"
  shows "occurs t (Suc k) (pre @ p @ post) \<Longrightarrow> occurs t k (pre @ x @ post)"
proof (induction k arbitrary: pre)
  case 0
  then show ?case by simp
next
  case (Suc k)
  then obtain a b where ab: "pre @ p @ post = a @ t @ b" "occurs t (Suc k) b"
    by auto
  from p t ab(1) np show ?case
  proof (cases rule: occurrence_cases)
    case (before r)
    with ab(2) have "occurs t k (r @ x @ post)"
      using Suc.IH by simp
    moreover have "pre @ x @ post = a @ t @ (r @ x @ post)"
      using before by simp
    ultimately show ?thesis
      unfolding occurs.simps by blast
  next
    case (after r)
    have "occurs t k b"
      using ab(2) by (rule occurs_less)
    moreover have "pre @ x @ post = (pre @ x @ r) @ t @ b"
      using after by simp
    ultimately show ?thesis
      unfolding occurs.simps by blast
  next
    case (inside u)
    with ab(2) have "occurs t (Suc k) post"
      by simp
    then have "occurs t (Suc k) ((pre @ x) @ post)"
      by (rule occurs_prepend)
    then show ?thesis by simp
  qed
qed

text \<open>and none, when p does not end with t\<close>

lemma occurs_replace_apart:
  assumes p: "tokenText p" and t: "tokenText t" and np: "\<not> suffix p t" and nt: "\<not> suffix t p"
  shows "occurs t k (pre @ p @ post) \<Longrightarrow> occurs t k (pre @ x @ post)"
proof (induction k arbitrary: pre)
  case 0
  then show ?case by simp
next
  case (Suc k)
  then obtain a b where ab: "pre @ p @ post = a @ t @ b" "occurs t k b"
    by auto
  from p t ab(1) np show ?case
  proof (cases rule: occurrence_cases)
    case (before r)
    with ab(2) have "occurs t k (r @ x @ post)"
      using Suc.IH by simp
    moreover have "pre @ x @ post = a @ t @ (r @ x @ post)"
      using before by simp
    ultimately show ?thesis
      unfolding occurs.simps by blast
  next
    case (after r)
    have "pre @ x @ post = (pre @ x @ r) @ t @ b"
      using after by simp
    with ab(2) show ?thesis
      unfolding occurs.simps by blast
  next
    case (inside u)
    then have "suffix t p"
      by (simp add: suffix_def)
    with nt show ?thesis by simp
  qed
qed

lemma js_replace_outside:
  assumes "\<forall>j<length pre. \<not> startsWith (drop j (pre @ p @ post)) p"
    and "js_includes pre t \<or> js_includes post t"
  shows "js_includes (js_replace (pre @ p @ post) p r) t"
proof -
  have r: "js_replace (pre @ p @ post) p r = pre @ getSubstitution p pre post r @ post"
    using assms(1) by (rule js_replace_first)
  from assms(2) show ?thesis
  proof
    assume "js_includes pre t"
    then obtain c d where "pre = c @ t @ d"
      unfolding js_includes_iff by blast
    then have "js_replace (pre @ p @ post) p r = c @ t @ (d @ getSubstitution p pre post r @ post)"
      using r by simp
    then show ?thesis
      unfolding js_includes_iff by blast
  next
    assume "js_includes post t"
    then obtain c d where "post = c @ t @ d"
      unfolding js_includes_iff by blast
    then have "js_replace (pre @ p @ post) p r = (pre @ getSubstitution p pre post r @ c) @ t @ d"
      using r by simp
    then show ?thesis
      unfolding js_includes_iff by blast
  qed
qed

lemma execAll_count:
  "occurs t (length (filter (\<lambda>m. suffix t (fst m)) (execAll n s))) (drop n s)"
proof (induction n s rule: execAll.induct)
  case (1 n)
  then show ?case by simp
next
  case (2 n c cs)
  then show ?case by simp
next
  case (3 c cs)
  show ?case
  proof (cases "startsWith (c # cs) ''[[[''")
    case True
    show ?thesis
    proof (cases "matchBody (drop 3 (c # cs))")
      case None
      from 3(1) [OF True None] have "occurs t (length (filter (\<lambda>m. suffix t (fst m)) (execAll 0 cs))) ([c] @ cs)"
        by (intro occurs_prepend) simp
      with True None show ?thesis by simp
    next
      case (Some f0)
      define p where "p = ''[[['' @ f0 @ '']]]''"
      define k where "k = length (filter (\<lambda>m. suffix t (fst m)) (execAll (length f0 + 5) cs))"
      from matchBody_Some [OF Some] obtain rest where "drop 3 (c # cs) = f0 @ '']]]'' @ rest"
        by blast
      moreover have "c # cs = ''[[['' @ drop 3 (c # cs)"
        using True unfolding startsWith_def by (metis append_take_drop_id length_Cons list.size(3) numeral_3_eq_3)
      ultimately have split: "c # cs = p @ rest"
        unfolding p_def by simp
      have "length p = Suc (length f0 + 5)"
        unfolding p_def by simp
      then have "drop (length f0 + 5) cs = drop (length p) (c # cs)"
        by (simp only: drop_Suc_Cons)
      also have "\<dots> = rest"
        unfolding split by simp
      finally have rest: "drop (length f0 + 5) cs = rest" .
      from 3(2) [OF True Some] have k: "occurs t k rest"
        unfolding k_def rest .
      have list: "execAll 0 (c # cs) = (p, f0) # execAll (length f0 + 5) cs"
        using True Some unfolding p_def by simp
      show ?thesis
      proof (cases "suffix t p")
        case suffix: True
        then obtain u where "p = u @ t"
          by (auto simp: suffix_def)
        with split have "c # cs = u @ t @ rest"
          by simp
        with k have "occurs t (Suc k) (c # cs)"
          unfolding occurs.simps by blast
        moreover have "length (filter (\<lambda>m. suffix t (fst m)) (execAll 0 (c # cs))) = Suc k"
          unfolding list k_def using suffix by simp
        ultimately show ?thesis by simp
      next
        case False
        from k have "occurs t k (p @ rest)"
          by (rule occurs_prepend)
        then have "occurs t k (c # cs)"
          unfolding split .
        moreover have "length (filter (\<lambda>m. suffix t (fst m)) (execAll 0 (c # cs))) = k"
          unfolding list k_def using False by simp
        ultimately show ?thesis by simp
      qed
    qed
  next
    case False
    from 3(3) [OF False] have "occurs t (length (filter (\<lambda>m. suffix t (fst m)) (execAll 0 cs))) ([c] @ cs)"
      by (intro occurs_prepend) simp
    with False show ?thesis by simp
  qed
qed

lemma extract_count:
  "length (filter P (extractPlaceholders s)) \<le> length (filter P (execAll 0 s))"
proof -
  have "distinct (extractPlaceholders s)"
    using extract_distinct [of s] by (rule distinct_map [THEN iffD1, THEN conjunct1])
  then have "distinct (filter P (extractPlaceholders s))"
    by simp
  then have "length (filter P (extractPlaceholders s)) = card (set (filter P (extractPlaceholders s)))"
    by (simp only: distinct_card)
  also have "\<dots> = card (set (filter P (execAll 0 s)))"
    by (simp add: extract_entries)
  also have "\<dots> \<le> length (filter P (execAll 0 s))"
    by (rule card_length)
  finally show ?thesis .
qed

lemma js_replace_split:
  assumes "indexOf s p = Some i"
  obtains pre post where "s = pre @ p @ post"
    and "js_replace s p r = pre @ getSubstitution p pre post r @ post"
proof -
  from assms have i: "startsWith (drop i s) p" "i \<le> length s"
    by (simp_all add: indexOf_Some_iff)
  from i(1) obtain post where post: "drop i s = p @ post"
    unfolding startsWith_iff by blast
  define pre where "pre = take i s"
  have split: "s = pre @ p @ post"
    unfolding pre_def using post by (metis append_take_drop_id)
  have len: "length pre = i"
    unfolding pre_def using i(2) by simp
  have "drop (i + length p) s = post"
    using split len by simp
  then have "js_replace s p r = pre @ getSubstitution p pre post r @ post"
    using assms unfolding js_replace_def pre_def by simp
  with split show ?thesis
    by (rule that)
qed

lemma js_replace_occurs:
  assumes p: "tokenText p" and t: "tokenText t" and np: "\<not> suffix p t"
    and s: "occurs t (Suc k) s"
  shows "occurs t k (js_replace s p r)"
proof (cases "indexOf s p")
  case None
  with s show ?thesis by (simp add: js_replace_def occurs_less)
next
  case (Some i)
  then obtain pre post where split: "s = pre @ p @ post"
    and r: "js_replace s p r = pre @ getSubstitution p pre post r @ post"
    by (rule js_replace_split)
  from s have "occurs t (Suc k) (pre @ p @ post)"
    unfolding split .
  then show ?thesis
    unfolding r by (rule occurs_replace [OF p t np])
qed

lemma js_replace_occurs_apart:
  assumes p: "tokenText p" and t: "tokenText t" and np: "\<not> suffix p t" and nt: "\<not> suffix t p"
    and s: "occurs t k s"
  shows "occurs t k (js_replace s p r)"
proof (cases "indexOf s p")
  case None
  with s show ?thesis by (simp add: js_replace_def)
next
  case (Some i)
  then obtain pre post where split: "s = pre @ p @ post"
    and r: "js_replace s p r = pre @ getSubstitution p pre post r @ post"
    by (rule js_replace_split)
  from s have "occurs t k (pre @ p @ post)"
    unfolding split .
  then show ?thesis
    unfolding r by (rule occurs_replace_apart [OF p t np nt])
qed

text \<open>through the loop: one occurrence more than there are resolved tokens left that end with t\<close>

lemma foldl_occurs:
  assumes t: "tokenText t"
  shows "occurs t (Suc (length (filter (\<lambda>e. findImage images (snd e) \<noteq> None \<and> suffix t (fst e)) es))) s \<Longrightarrow>
    \<forall>e\<in>set es. findImage images (snd e) = None \<or> (tokenText (fst e) \<and> \<not> suffix (fst e) t) \<Longrightarrow>
    js_includes (foldl (substitute imgTag images) s es) t"
proof (induction es arbitrary: s)
  case Nil
  then have "occurs t (Suc 0) s"
    by simp
  then have "js_includes s t"
    by (rule occurs_includes)
  then show ?case by simp
next
  case (Cons e es)
  obtain p f where e: "e = (p, f)"
    by (cases e)
  define k where "k = length (filter (\<lambda>e. findImage images (snd e) \<noteq> None \<and> suffix t (fst e)) es)"
  have "occurs t (Suc k) (substitute imgTag images s e)"
  proof (cases "findImage images f")
    case None
    with Cons.prems(1) e show ?thesis by (simp add: substitute_def k_def)
  next
    case (Some img)
    with Cons.prems(2) e have p: "tokenText p" "\<not> suffix p t"
      by auto
    have "occurs t (Suc k) (js_replace s p (imgTag img))"
    proof (cases "suffix t p")
      case True
      with Cons.prems(1) e Some have "occurs t (Suc (Suc k)) s"
        by (simp add: k_def)
      then show ?thesis
        by (rule js_replace_occurs [OF p(1) t p(2)])
    next
      case False
      with Cons.prems(1) e Some have "occurs t (Suc k) s"
        by (simp add: k_def)
      then show ?thesis
        by (rule js_replace_occurs_apart [OF p(1) t p(2) False])
    qed
    with Some e show ?thesis by (simp add: substitute_def)
  qed
  moreover have "\<forall>e\<in>set es. findImage images (snd e) = None \<or> (tokenText (fst e) \<and> \<not> suffix (fst e) t)"
    using Cons.prems(2) by simp
  ultimately show ?case
    using Cons.IH unfolding k_def by simp
qed

lemma dangling_stays:
  assumes t: "(t, g) \<in> set (extractPlaceholders answer)"
    and g: "findImage images g = None"
    and apart: "list_all (\<lambda>e. findImage images (snd e) \<noteq> None \<longrightarrow> \<not> suffix (fst e) t)
                  (extractPlaceholders answer)"
  shows "js_includes (resolvePlaceholders imgTag images answer) t"
proof -
  define es where "es = extractPlaceholders answer"
  define S where "S = (\<lambda>e :: string \<times> string. suffix t (fst e))"
  define R where "R = (\<lambda>e :: string \<times> string. findImage images (snd e) \<noteq> None \<and> suffix t (fst e))"
  have m: "(t, g) \<in> set (execAll 0 answer)"
    using t by (simp add: extract_entries)
  have tok: "tokenText t"
    using m by (rule execAll_token)
  have "(t, g) \<in> set (filter S es)" "\<not> R (t, g)"
    using t g by (simp_all add: es_def S_def R_def)
  then have "length (filter R (filter S es)) < length (filter S es)"
    by (rule length_filter_less)
  moreover have "filter R (filter S es) = filter R es"
    unfolding filter_filter by (rule filter_cong) (auto simp: R_def S_def)
  moreover have "length (filter S es) \<le> length (filter S (execAll 0 answer))"
    unfolding es_def by (rule extract_count)
  ultimately have "Suc (length (filter R es)) \<le> length (filter S (execAll 0 answer))"
    by simp
  moreover have "occurs t (length (filter S (execAll 0 answer))) answer"
    using execAll_count [of t 0 answer] by (simp add: S_def)
  ultimately have start: "occurs t (Suc (length (filter R es))) answer"
    by (rule occurs_mono)
  have "\<forall>e\<in>set es. findImage images (snd e) = None \<or> (tokenText (fst e) \<and> \<not> suffix (fst e) t)"
  proof
    fix e
    assume e: "e \<in> set es"
    then have "(fst e, snd e) \<in> set (execAll 0 answer)"
      by (simp add: es_def extract_entries)
    then have "tokenText (fst e)"
      by (rule execAll_token)
    with apart e show "findImage images (snd e) = None \<or> (tokenText (fst e) \<and> \<not> suffix (fst e) t)"
      by (auto simp: list_all_iff es_def)
  qed
  with tok start show ?thesis
    unfolding resolvePlaceholders_def R_def es_def by (intro foldl_occurs)
qed

lemmas example_defs =
  findImage_def titleMatches_def picture_a_def picture_b_def js_includes_def startsWith_def
  toLowerCase_def toLowerChar_def trim_def isWhiteSpace_def isWordChar_def Let_def

lemma example_find:
  "findImage [picture_a] ''[a'' = None"
  "findImage [picture_a] ''a'' = Some picture_a"
  "findImage [picture_a] ''zebra'' = None"
  "findImage [picture_a, picture_b] ''B.PNG '' = Some picture_b"
  by (simp_all add: example_defs)

lemma example_extract:
  "extractPlaceholders ''[[[[a]]] [[[a]]]'' = [(''[[[[a]]]'', ''[a''), (''[[[a]]]'', ''a'')]"
  "extractPlaceholders ''see [[[zebra]]]'' = [(''[[[zebra]]]'', ''zebra'')]"
  "execAll 0 ''x [[[a]]] y [[[a]]]'' = [(''[[[a]]]'', ''a''), (''[[[a]]]'', ''a'')]"
  "extractPlaceholders ''x [[[a]]] y [[[a]]]'' = [(''[[[a]]]'', ''a'')]"
  "execAll 0 ''plain text'' = []"
  by (simp_all add: extractPlaceholders_def startsWith_def isLineTerminator_def execAll_numeral)

lemma mixed_example:
  "extractPlaceholders ''see [[[a]]] and [[[zebra]]]'' = [(''[[[a]]]'', ''a''), (''[[[zebra]]]'', ''zebra'')]"
  "resolvePlaceholders plain_tag [picture_a] ''see [[[a]]] and [[[zebra]]]'' = ''see <figure> and [[[zebra]]]''"
  "\<not> suffix ''[[[a]]]'' ''[[[zebra]]]''"
proof -
  show e: "extractPlaceholders ''see [[[a]]] and [[[zebra]]]'' = [(''[[[a]]]'', ''a''), (''[[[zebra]]]'', ''zebra'')]"
    by (simp add: extractPlaceholders_def startsWith_def isLineTerminator_def execAll_numeral)
  show "resolvePlaceholders plain_tag [picture_a] ''see [[[a]]] and [[[zebra]]]'' = ''see <figure> and [[[zebra]]]''"
    by (simp add: resolvePlaceholders_def e substitute_def example_find
        js_replace_def startsWith_def plain_tag_def)
  show "\<not> suffix ''[[[a]]]'' ''[[[zebra]]]''"
    by (simp add: suffix_to_prefix)
qed

lemma nested_example:
  "extractPlaceholders ''[[[a.png[[[q]]] [[[q]]]'' = [(''[[[a.png[[[q]]]'', ''a.png[[[q''), (''[[[q]]]'', ''q'')]"
  "findImage [picture_a] ''a.png[[[q'' = Some picture_a"
  "findImage [picture_a] ''q'' = None"
  "resolvePlaceholders plain_tag [picture_a] ''[[[a.png[[[q]]] [[[q]]]'' = ''<figure> [[[q]]]''"
  "\<not> suffix ''[[[a.png[[[q]]]'' ''[[[q]]]''"
proof -
  show e: "extractPlaceholders ''[[[a.png[[[q]]] [[[q]]]'' = [(''[[[a.png[[[q]]]'', ''a.png[[[q''), (''[[[q]]]'', ''q'')]"
    by (simp add: extractPlaceholders_def startsWith_def isLineTerminator_def execAll_numeral)
  show f: "findImage [picture_a] ''a.png[[[q'' = Some picture_a" "findImage [picture_a] ''q'' = None"
    by (simp_all add: example_defs)
  show "resolvePlaceholders plain_tag [picture_a] ''[[[a.png[[[q]]] [[[q]]]'' = ''<figure> [[[q]]]''"
    by (simp add: resolvePlaceholders_def e substitute_def f
        js_replace_def startsWith_def plain_tag_def)
  show "\<not> suffix ''[[[a.png[[[q]]]'' ''[[[q]]]''"
    by (simp add: suffix_to_prefix)
qed

text \<open>
  C7 (as the code has it). The file name of a token is lowercased and trimmed, and the
  image found for it is the first one, in the order of the sequence, whose lowercased
  title is equal to it, contains it, is contained in it, or is equal to it once the
  extension is stripped from both. When no image is found, the step of that token leaves
  the text as it is. The step of a token that finds an image rewrites the first
  occurrence of that token's text only, so any text standing before or after that
  occurrence stays. Hence a token that finds no image is still in the output whenever
  its text does not end with the text of a token that finds one (a token text holds
  another one only as its end); when no token finds an image, the text comes out
  unchanged.
\<close>

theorem placeholder_resolution:
  "(findImage images filename = Some img \<longleftrightarrow>
      (\<exists>i<length images. images ! i = img \<and>
         titleMatches (title img) (trim (toLowerCase filename)) \<and>
         (\<forall>j<i. \<not> titleMatches (title (images ! j)) (trim (toLowerCase filename)))))
   \<and> (titleMatches imageTitle name \<longleftrightarrow>
         toLowerCase imageTitle = name \<or>
         (\<exists>pre post. toLowerCase imageTitle = pre @ name @ post) \<or>
         (\<exists>pre post. name = pre @ toLowerCase imageTitle @ post) \<or>
         stripExtension (toLowerCase imageTitle) = stripExtension name)
   \<and> (findImage images filename = None \<longleftrightarrow>
         list_all (\<lambda>img. \<not> titleMatches (title img) (trim (toLowerCase filename))) images)
   \<and> (findImage images filename = None \<longrightarrow>
         substitute imgTag images formatted (placeholder, filename) = formatted)
   \<and> (list_all (\<lambda>entry. findImage images (snd entry) = None) (extractPlaceholders answer) \<longrightarrow>
         resolvePlaceholders imgTag images answer = answer)
   \<and> (js_includes s x \<longleftrightarrow> (\<exists>pre post. s = pre @ x @ post))
   \<and> (findImage images f = Some found \<and>
        (\<forall>j<length pre. \<not> startsWith (drop j (pre @ p @ post)) p) \<and>
        (js_includes pre t \<or> js_includes post t) \<longrightarrow>
         js_includes (substitute imgTag images (pre @ p @ post) (p, f)) t)
   \<and> ((t, g) \<in> set (extractPlaceholders answer) \<and> findImage images g = None \<and>
        list_all (\<lambda>entry. findImage images (snd entry) \<noteq> None \<longrightarrow> \<not> suffix (fst entry) t)
          (extractPlaceholders answer) \<longrightarrow>
         js_includes (resolvePlaceholders imgTag images answer) t)"
proof -
  have "titleMatches imageTitle name \<longleftrightarrow>
         toLowerCase imageTitle = name \<or>
         (\<exists>pre post. toLowerCase imageTitle = pre @ name @ post) \<or>
         (\<exists>pre post. name = pre @ toLowerCase imageTitle @ post) \<or>
         stripExtension (toLowerCase imageTitle) = stripExtension name"
    by (simp add: titleMatches_def Let_def js_includes_iff)
  moreover have "resolvePlaceholders imgTag images answer = answer"
    if "list_all (\<lambda>entry. findImage images (snd entry) = None) (extractPlaceholders answer)"
    using that unfolding resolvePlaceholders_def list_all_iff
    by (rule foldl_substitute_unmatched)
  moreover have "js_includes (substitute imgTag images (pre @ p @ post) (p, f)) t"
    if "findImage images f = Some found"
      "\<forall>j<length pre. \<not> startsWith (drop j (pre @ p @ post)) p"
      "js_includes pre t \<or> js_includes post t"
    using that by (simp add: substitute_def js_replace_outside)
  moreover have "js_includes (resolvePlaceholders imgTag images answer) t"
    if "(t, g) \<in> set (extractPlaceholders answer)" "findImage images g = None"
      "list_all (\<lambda>entry. findImage images (snd entry) \<noteq> None \<longrightarrow> \<not> suffix (fst entry) t)
         (extractPlaceholders answer)"
    using that by (rule dangling_stays)
  moreover note findImage_Some_iff [of images filename img] findImage_None_iff [of images filename]
    js_includes_iff [of s x] substitute_unmatched [of images filename imgTag formatted placeholder]
  ultimately show ?thesis
    by blast
qed

theorem placeholder_resolution_witness:
  "findImage [picture_a, picture_b] ''B.PNG '' = Some picture_b
   \<and> titleMatches (title picture_b) (trim (toLowerCase ''B.PNG ''))
   \<and> \<not> titleMatches (title picture_a) (trim (toLowerCase ''B.PNG ''))
   \<and> findImage [picture_a] ''[a'' = None
   \<and> substitute plain_tag [picture_a] ''see [[[[a]]]'' (''[[[[a]]]'', ''[a'') = ''see [[[[a]]]''
   \<and> list_all (\<lambda>entry. findImage [picture_a] (snd entry) = None) (extractPlaceholders ''see [[[zebra]]]'')
   \<and> resolvePlaceholders plain_tag [picture_a] ''see [[[zebra]]]'' = ''see [[[zebra]]]''
   \<and> extractPlaceholders ''see [[[a]]] and [[[zebra]]]''
        = [(''[[[a]]]'', ''a''), (''[[[zebra]]]'', ''zebra'')]
   \<and> findImage [picture_a] ''a'' = Some picture_a
   \<and> findImage [picture_a] ''zebra'' = None
   \<and> js_includes '' and [[[zebra]]]'' ''[[[zebra]]]''
   \<and> js_includes
        (substitute plain_tag [picture_a] (''see '' @ ''[[[a]]]'' @ '' and [[[zebra]]]'') (''[[[a]]]'', ''a''))
        ''[[[zebra]]]''
   \<and> \<not> suffix ''[[[a]]]'' ''[[[zebra]]]''
   \<and> resolvePlaceholders plain_tag [picture_a] ''see [[[a]]] and [[[zebra]]]''
        = ''see <figure> and [[[zebra]]]''
   \<and> js_includes (resolvePlaceholders plain_tag [picture_a] ''see [[[a]]] and [[[zebra]]]'') ''[[[zebra]]]''
   \<and> extractPlaceholders ''[[[a.png[[[q]]] [[[q]]]''
        = [(''[[[a.png[[[q]]]'', ''a.png[[[q''), (''[[[q]]]'', ''q'')]
   \<and> findImage [picture_a] ''a.png[[[q'' = Some picture_a
   \<and> findImage [picture_a] ''q'' = None
   \<and> \<not> suffix ''[[[a.png[[[q]]]'' ''[[[q]]]''
   \<and> resolvePlaceholders plain_tag [picture_a] ''[[[a.png[[[q]]] [[[q]]]'' = ''<figure> [[[q]]]''
   \<and> js_includes (resolvePlaceholders plain_tag [picture_a] ''[[[a.png[[[q]]] [[[q]]]'') ''[[[q]]]''"
proof -
  note found = placeholder_resolution [where images = "[picture_a, picture_b]"
      and filename = "''B.PNG ''" and img = picture_b, THEN conjunct1]
  note unmatched = placeholder_resolution [where images = "[picture_a]" and filename = "''[a''"
      and imgTag = plain_tag and formatted = "''see [[[[a]]]''" and placeholder = "''[[[[a]]]''",
      THEN conjunct2, THEN conjunct2, THEN conjunct2, THEN conjunct1]
  note all_unmatched = placeholder_resolution [where images = "[picture_a]" and imgTag = plain_tag
      and answer = "''see [[[zebra]]]''",
      THEN conjunct2, THEN conjunct2, THEN conjunct2, THEN conjunct2, THEN conjunct1]
  note step = placeholder_resolution [where images = "[picture_a]" and imgTag = plain_tag
      and f = "''a''" and found = picture_a and pre = "''see ''" and p = "''[[[a]]]''"
      and post = "'' and [[[zebra]]]''" and t = "''[[[zebra]]]''",
      THEN conjunct2, THEN conjunct2, THEN conjunct2, THEN conjunct2, THEN conjunct2, THEN conjunct2,
      THEN conjunct1]
  note run = placeholder_resolution [where images = "[picture_a]" and imgTag = plain_tag
      and answer = "''see [[[a]]] and [[[zebra]]]''" and t = "''[[[zebra]]]''" and g = "''zebra''",
      THEN conjunct2, THEN conjunct2, THEN conjunct2, THEN conjunct2, THEN conjunct2, THEN conjunct2,
      THEN conjunct2]
  note nested = placeholder_resolution [where images = "[picture_a]" and imgTag = plain_tag
      and answer = "''[[[a.png[[[q]]] [[[q]]]''" and t = "''[[[q]]]''" and g = "''q''",
      THEN conjunct2, THEN conjunct2, THEN conjunct2, THEN conjunct2, THEN conjunct2, THEN conjunct2,
      THEN conjunct2]
  have a: "list_all (\<lambda>entry. findImage [picture_a] (snd entry) = None) (extractPlaceholders ''see [[[zebra]]]'')"
    by (simp add: example_extract example_find)
  have "\<exists>i<length [picture_a, picture_b]. [picture_a, picture_b] ! i = picture_b \<and>
         titleMatches (title picture_b) (trim (toLowerCase ''B.PNG '')) \<and>
         (\<forall>j<i. \<not> titleMatches (title ([picture_a, picture_b] ! j)) (trim (toLowerCase ''B.PNG '')))"
    using found example_find(4) by (rule iffD1)
  then have b: "titleMatches (title picture_b) (trim (toLowerCase ''B.PNG ''))"
    by blast
  have c: "\<not> titleMatches (title picture_a) (trim (toLowerCase ''B.PNG ''))"
    by (simp add: example_defs)
  have d: "substitute plain_tag [picture_a] ''see [[[[a]]]'' (''[[[[a]]]'', ''[a'') = ''see [[[[a]]]''"
    by (rule unmatched [THEN mp, OF example_find(1)])
  have e: "resolvePlaceholders plain_tag [picture_a] ''see [[[zebra]]]'' = ''see [[[zebra]]]''"
    by (rule all_unmatched [THEN mp, OF a])
  have occ: "\<forall>j<length ''see ''. \<not> startsWith (drop j (''see '' @ ''[[[a]]]'' @ '' and [[[zebra]]]'')) ''[[[a]]]''"
    by (simp add: startsWith_def All_less_Suc eval_nat_numeral)
  have after: "js_includes '' and [[[zebra]]]'' ''[[[zebra]]]''"
    by (simp add: js_includes_def startsWith_def)
  have kept: "js_includes
        (substitute plain_tag [picture_a] (''see '' @ ''[[[a]]]'' @ '' and [[[zebra]]]'') (''[[[a]]]'', ''a''))
        ''[[[zebra]]]''"
    by (rule step [THEN mp, OF conjI [OF example_find(2) conjI [OF occ disjI2 [OF after]]]])
  have m: "(''[[[zebra]]]'', ''zebra'') \<in> set (extractPlaceholders ''see [[[a]]] and [[[zebra]]]'')"
    by (simp only: mixed_example(1) list.set insert_iff simp_thms)
  have apart: "list_all (\<lambda>entry. findImage [picture_a] (snd entry) \<noteq> None \<longrightarrow>
                           \<not> suffix (fst entry) ''[[[zebra]]]'')
          (extractPlaceholders ''see [[[a]]] and [[[zebra]]]'')"
    unfolding mixed_example(1) using mixed_example(3) example_find(3) by simp
  have final: "js_includes (resolvePlaceholders plain_tag [picture_a] ''see [[[a]]] and [[[zebra]]]'') ''[[[zebra]]]''"
    by (rule run [THEN mp, OF conjI [OF m conjI [OF example_find(3) apart]]])
  have m': "(''[[[q]]]'', ''q'') \<in> set (extractPlaceholders ''[[[a.png[[[q]]] [[[q]]]'')"
    by (simp only: nested_example(1) list.set insert_iff simp_thms)
  have apart': "list_all (\<lambda>entry. findImage [picture_a] (snd entry) \<noteq> None \<longrightarrow>
                           \<not> suffix (fst entry) ''[[[q]]]'')
          (extractPlaceholders ''[[[a.png[[[q]]] [[[q]]]'')"
    unfolding nested_example(1) using nested_example(5) nested_example(3) by simp
  have final': "js_includes (resolvePlaceholders plain_tag [picture_a] ''[[[a.png[[[q]]] [[[q]]]'') ''[[[q]]]''"
    by (rule nested [THEN mp, OF conjI [OF m' conjI [OF nested_example(3) apart']]])
  show ?thesis
    by (rule conjI example_find(4) b c example_find(1) d a e mixed_example(1) example_find(2)
        example_find(3) after kept mixed_example(3) mixed_example(2) final
        nested_example(1) nested_example(2) nested_example(3) nested_example(5) nested_example(4) final')+
qed

text \<open>
  With the answer \<open>[[[[a]]] [[[a]]]\<close> and one image titled \<open>a.png\<close>, the first token
  (file name \<open>[a\<close>) finds no image and the second (file name \<open>a\<close>) finds one. The text
  of the second token first occurs inside the first token, and it is replaced there: the
  unresolved token does not come out verbatim.
\<close>

theorem dangling_token_rewritten:
  "extractPlaceholders ''[[[[a]]] [[[a]]]'' = [(''[[[[a]]]'', ''[a''), (''[[[a]]]'', ''a'')]
   \<and> findImage [picture_a] ''[a'' = None
   \<and> findImage [picture_a] ''a'' = Some picture_a
   \<and> resolvePlaceholders plain_tag [picture_a] ''[[[[a]]] [[[a]]]'' = ''[<figure> [[[a]]]''
   \<and> \<not> js_includes (resolvePlaceholders plain_tag [picture_a] ''[[[[a]]] [[[a]]]'') ''[[[[a]]]''"
proof -
  have r: "resolvePlaceholders plain_tag [picture_a] ''[[[[a]]] [[[a]]]'' = ''[<figure> [[[a]]]''"
    by (simp add: resolvePlaceholders_def example_extract substitute_def example_find
        js_replace_def startsWith_def plain_tag_def)
  have "\<not> js_includes ''[<figure> [[[a]]]'' ''[[[[a]]]''"
    by (simp add: js_includes_def startsWith_def)
  then show ?thesis
    by (simp add: r example_extract example_find)
qed



section \<open>The run\<close>


lemma directPath_error: "snd (directPath apiKey direct) \<noteq> Inl NoImagesFound"
  by (auto simp: directPath_def split: response.splits option.splits)

lemma analyzeImages_error: "snd (analyzeImages usingProxy apiKey relay direct) \<noteq> Inl NoImagesFound"
  using directPath_error [of apiKey direct]
  by (auto simp: analyzeImages_def split: option.splits prod.splits)

lemma getSearchTerms_error: "snd (getSearchTerms usingProxy apiKey relay direct) \<noteq> Inl NoImagesFound"
  using directPath_error [of apiKey direct]
  by (auto simp: getSearchTerms_def split: option.splits prod.splits sum.splits)

lemma analyzeImages_sends:
  "usingProxy \<or> \<not> falsy apiKey \<Longrightarrow> fst (analyzeImages usingProxy apiKey relay direct) \<noteq> []"
  by (auto simp: analyzeImages_def directPath_def split: option.splits prod.splits response.splits)

lemma searchAll_empty:
  "searchAll env searchTerms = [] \<longleftrightarrow>
     list_all (\<lambda>term. searchImages (searchReply env term) = []) searchTerms"
  by (auto simp: searchAll_def Let_def list_all_iff)

lemma processQuestion_no_images:
  "snd (processQuestion cfg env question apiKey modelName) = ShowError NoImagesFound \<longleftrightarrow>
     \<not> (\<not> useProxy env \<and> falsy apiKey) \<and>
     (\<exists>sent searchTerms.
        getSearchTerms (useProxy env) apiKey (termsRelay env question) (termsDirect env question)
          = (sent, Inr searchTerms) \<and>
        searchAll env searchTerms = [])"
proof (cases "\<not> useProxy env \<and> falsy apiKey")
  case True
  then show ?thesis by (simp add: processQuestion_def)
next
  case False
  obtain sent r where g: "getSearchTerms (useProxy env) apiKey (termsRelay env question) (termsDirect env question) = (sent, r)"
    by (cases "getSearchTerms (useProxy env) apiKey (termsRelay env question) (termsDirect env question)")
  show ?thesis
  proof (cases r)
    case (Inl e)
    then have "e \<noteq> NoImagesFound"
      using g getSearchTerms_error [of "useProxy env" apiKey "termsRelay env question" "termsDirect env question"]
      by auto
    with False g Inl show ?thesis
      by (simp add: processQuestion_def)
  next
    case (Inr searchTerms)
    let ?images = "processImages cfg (imageNetwork env) (fetchDetails env (searchAll env searchTerms))"
    obtain sent' a where v: "analyzeImages (useProxy env) apiKey
          (visionRelay env question ?images modelName) (visionDirect env question ?images modelName) = (sent', a)"
      by (cases "analyzeImages (useProxy env) apiKey
          (visionRelay env question ?images modelName) (visionDirect env question ?images modelName)")
    have "a \<noteq> Inl NoImagesFound"
      using v analyzeImages_error [of "useProxy env" apiKey
          "visionRelay env question ?images modelName" "visionDirect env question ?images modelName"]
      by auto
    with False g Inr v show ?thesis
      by (cases a) (auto simp: processQuestion_def Let_def)
  qed
qed

lemma processQuestion_invokes:
  assumes "\<not> (\<not> useProxy env \<and> falsy apiKey)"
    and "getSearchTerms (useProxy env) apiKey (termsRelay env question) (termsDirect env question)
          = (sent, Inr searchTerms)"
    and "searchAll env searchTerms \<noteq> []"
    and "processImages cfg (imageNetwork env) (fetchDetails env (searchAll env searchTerms)) = []"
  shows "fst (processQuestion cfg env question apiKey modelName)
          = fst (analyzeImages (useProxy env) apiKey
                   (visionRelay env question [] modelName) (visionDirect env question [] modelName))"
    and "fst (processQuestion cfg env question apiKey modelName) \<noteq> []"
proof -
  show s: "fst (processQuestion cfg env question apiKey modelName)
          = fst (analyzeImages (useProxy env) apiKey
                   (visionRelay env question [] modelName) (visionDirect env question [] modelName))"
    using assms by (auto simp: processQuestion_def Let_def split: prod.splits sum.splits)
  show "fst (processQuestion cfg env question apiKey modelName) \<noteq> []"
    unfolding s using assms(1) by (intro analyzeImages_sends) auto
qed

lemma gif_run:
  "getSearchTerms (useProxy gif_env) None (termsRelay gif_env ''What is a cat?'') (termsDirect gif_env ''What is a cat?'')
     = ([RelayRequest], Inr [''cat''])"
  "searchAll gif_env [''cat''] = [(''File:Cat.gif'', 42)]"
  by (simp_all add: gif_env_def getSearchTerms_def relayPath_def parseSearchTerms_def trim_def
      isWhiteSpace_def searchAll_def searchImages_def)

lemma gif_details:
  "map url (fetchDetails gif_env [(''File:Cat.gif'', 42)]) = [''https://upload.wikimedia.org/Cat.gif'']"
  by (simp add: fetchDetails_def gif_env_def getImageDetails_def List.map_filter_def)

lemma gif_rejected:
  "processImages app_config (imageNetwork gif_env) (fetchDetails gif_env (searchAll gif_env [''cat''])) = []"
proof -
  obtain d where d: "fetchDetails gif_env [(''File:Cat.gif'', 42)] = [d]" "url d = ''https://upload.wikimedia.org/Cat.gif''"
    using gif_details by (auto simp: map_eq_Cons_conv)
  have "prepareImage app_config (imageNetwork gif_env) d = None"
    by (simp add: prepareImage_def d endsWith_def toLowerCase_def toLowerChar_def)
  then show ?thesis
    by (simp add: gif_run d processImages_def admissionLoop_def processImage_def)
qed

lemma gif_answer:
  "processQuestion app_config gif_env ''What is a cat?'' None ''gemini-2.0-flash''
     = ([RelayRequest], DisplayResponse ''Cats are mammals.'')"
proof -
  have v: "analyzeImages True None
             (visionRelay gif_env ''What is a cat?'' [] ''gemini-2.0-flash'')
             (visionDirect gif_env ''What is a cat?'' [] ''gemini-2.0-flash'')
           = ([RelayRequest], Inr ''Cats are mammals.'')"
    by (simp add: gif_env_def analyzeImages_def relayPath_def)
  have f: "formatResponse (renderMarkup gif_env) (renderTag gif_env) [] ''Cats are mammals.'' = ''Cats are mammals.''"
    by (simp add: formatResponse_def gif_env_def resolve_no_tokens startsWith_def)
  have p: "useProxy gif_env"
    by (simp add: gif_env_def)
  show ?thesis
    unfolding processQuestion_def gif_run(1) using p
    by (simp add: gif_run(2) gif_rejected [unfolded gif_run(2)] v f)
qed

lemma silent_run:
  "getSearchTerms (useProxy silent_env) None (termsRelay silent_env ''What is a cat?'')
       (termsDirect silent_env ''What is a cat?'')
     = ([RelayRequest], Inr [''cat''])"
  "list_all (\<lambda>term. searchImages (searchReply silent_env term) = []) [''cat'']"
  "useProxy silent_env"
  by (simp_all add: silent_env_def gif_env_def getSearchTerms_def relayPath_def parseSearchTerms_def
      trim_def isWhiteSpace_def searchImages_def)

text \<open>
  C6 (as the code has it). The run ends with the "no images found" error exactly when
  the key check passes, the search terms are obtained and the search returns no
  candidate for any of them. When the search returns a candidate and the admission pass
  returns no image, the run does not end with that error: the vision model is called,
  with an empty image list.
\<close>

theorem no_images_error:
  "(snd (processQuestion cfg env question apiKey modelName) = ShowError NoImagesFound \<longleftrightarrow>
      \<not> (\<not> useProxy env \<and> falsy apiKey) \<and>
      (\<exists>sent terms.
         getSearchTerms (useProxy env) apiKey (termsRelay env question) (termsDirect env question)
           = (sent, Inr terms) \<and>
         list_all (\<lambda>term. searchImages (searchReply env term) = []) terms))
   \<and> (\<not> (\<not> useProxy env \<and> falsy apiKey) \<and>
       getSearchTerms (useProxy env) apiKey (termsRelay env question) (termsDirect env question)
         = (sent, Inr searchTerms) \<and>
       \<not> list_all (\<lambda>term. searchImages (searchReply env term) = []) searchTerms \<and>
       processImages cfg (imageNetwork env) (fetchDetails env (searchAll env searchTerms)) = [] \<longrightarrow>
         snd (processQuestion cfg env question apiKey modelName) \<noteq> ShowError NoImagesFound \<and>
         fst (processQuestion cfg env question apiKey modelName)
           = fst (analyzeImages (useProxy env) apiKey
                    (visionRelay env question [] modelName) (visionDirect env question [] modelName)) \<and>
         fst (processQuestion cfg env question apiKey modelName) \<noteq> [])"
proof -
  have a: "snd (processQuestion cfg env question apiKey modelName) = ShowError NoImagesFound \<longleftrightarrow>
      \<not> (\<not> useProxy env \<and> falsy apiKey) \<and>
      (\<exists>sent terms.
         getSearchTerms (useProxy env) apiKey (termsRelay env question) (termsDirect env question)
           = (sent, Inr terms) \<and>
         list_all (\<lambda>term. searchImages (searchReply env term) = []) terms)"
    unfolding processQuestion_no_images searchAll_empty ..
  have b: "snd (processQuestion cfg env question apiKey modelName) \<noteq> ShowError NoImagesFound \<and>
         fst (processQuestion cfg env question apiKey modelName)
           = fst (analyzeImages (useProxy env) apiKey
                    (visionRelay env question [] modelName) (visionDirect env question [] modelName)) \<and>
         fst (processQuestion cfg env question apiKey modelName) \<noteq> []"
    if h: "\<not> (\<not> useProxy env \<and> falsy apiKey)"
      "getSearchTerms (useProxy env) apiKey (termsRelay env question) (termsDirect env question)
         = (sent, Inr searchTerms)"
      "\<not> list_all (\<lambda>term. searchImages (searchReply env term) = []) searchTerms"
      "processImages cfg (imageNetwork env) (fetchDetails env (searchAll env searchTerms)) = []"
  proof -
    have ne: "searchAll env searchTerms \<noteq> []"
      using h(3) by (simp add: searchAll_empty)
    have "snd (processQuestion cfg env question apiKey modelName) \<noteq> ShowError NoImagesFound"
      unfolding processQuestion_no_images using h(2) ne by auto
    then show ?thesis
      using processQuestion_invokes [OF h(1) h(2) ne h(4)] by simp
  qed
  show ?thesis
    using a b by blast
qed

theorem no_images_error_witness:
  "processQuestion app_config silent_env ''What is a cat?'' None ''gemini-2.0-flash''
     = ([], ShowError NoImagesFound)
   \<and> getSearchTerms (useProxy silent_env) None (termsRelay silent_env ''What is a cat?'')
        (termsDirect silent_env ''What is a cat?'') = ([RelayRequest], Inr [''cat''])
   \<and> list_all (\<lambda>term. searchImages (searchReply silent_env term) = []) [''cat'']
   \<and> getSearchTerms (useProxy gif_env) None (termsRelay gif_env ''What is a cat?'')
        (termsDirect gif_env ''What is a cat?'') = ([RelayRequest], Inr [''cat''])
   \<and> \<not> list_all (\<lambda>term. searchImages (searchReply gif_env term) = []) [''cat'']
   \<and> processImages app_config (imageNetwork gif_env) (fetchDetails gif_env (searchAll gif_env [''cat''])) = []
   \<and> snd (processQuestion app_config gif_env ''What is a cat?'' None ''gemini-2.0-flash'')
        \<noteq> ShowError NoImagesFound
   \<and> fst (processQuestion app_config gif_env ''What is a cat?'' None ''gemini-2.0-flash'') \<noteq> []"
proof -
  note silent = no_images_error [of app_config silent_env "''What is a cat?''" None
      "''gemini-2.0-flash''" "[RelayRequest]" "[''cat'']", THEN conjunct1]
  note gif = no_images_error [of app_config gif_env "''What is a cat?''" None
      "''gemini-2.0-flash''" "[RelayRequest]" "[''cat'']", THEN conjunct2]
  have found: "\<not> list_all (\<lambda>term. searchImages (searchReply gif_env term) = []) [''cat'']"
    by (simp add: gif_env_def searchImages_def)
  have proxy: "\<not> (\<not> useProxy gif_env \<and> falsy None)" "\<not> (\<not> useProxy silent_env \<and> falsy None)"
    by (simp_all add: gif_env_def silent_env_def)
  have "snd (processQuestion app_config silent_env ''What is a cat?'' None ''gemini-2.0-flash'')
          = ShowError NoImagesFound"
    using silent silent_run(1) silent_run(2) proxy(2) by blast
  moreover have "fst (processQuestion app_config silent_env ''What is a cat?'' None ''gemini-2.0-flash'') = []"
    unfolding processQuestion_def silent_run(1)
    using silent_run(2) silent_run(3) by (simp add: searchAll_empty [symmetric])
  ultimately have s: "processQuestion app_config silent_env ''What is a cat?'' None ''gemini-2.0-flash''
     = ([], ShowError NoImagesFound)"
    by (simp add: prod_eq_iff)
  have g: "snd (processQuestion app_config gif_env ''What is a cat?'' None ''gemini-2.0-flash'')
        \<noteq> ShowError NoImagesFound
   \<and> fst (processQuestion app_config gif_env ''What is a cat?'' None ''gemini-2.0-flash'') \<noteq> []"
    using gif [THEN mp, OF conjI [OF proxy(1) conjI [OF gif_run(1) conjI [OF found gif_rejected]]]]
    by blast
  show ?thesis
    by (rule conjI s silent_run(1) silent_run(2) gif_run(1) found gif_rejected
        g [THEN conjunct1] g [THEN conjunct2])+
qed

text \<open>
  The search finds \<open>Cat.gif\<close>, the admission pass rejects it and returns no image; the
  vision model is asked all the same (through the relay, with no image), and its answer
  is displayed.
\<close>

theorem no_image_admitted_still_answers:
  "getSearchTerms (useProxy gif_env) None (termsRelay gif_env ''What is a cat?'')
        (termsDirect gif_env ''What is a cat?'') = ([RelayRequest], Inr [''cat''])
   \<and> searchAll gif_env [''cat''] = [(''File:Cat.gif'', 42)]
   \<and> map url (fetchDetails gif_env [(''File:Cat.gif'', 42)]) = [''https://upload.wikimedia.org/Cat.gif'']
   \<and> processImages app_config (imageNetwork gif_env) (fetchDetails gif_env (searchAll gif_env [''cat''])) = []
   \<and> processQuestion app_config gif_env ''What is a cat?'' None ''gemini-2.0-flash''
        = ([RelayRequest], DisplayResponse ''Cats are mammals.'')
   \<and> DisplayResponse ''Cats are mammals.'' \<noteq> ShowError NoImagesFound"
  by (simp add: gif_run gif_details gif_rejected [unfolded gif_run(2)] gif_answer)

end
